theory Spec2Isabelle
  imports Main "HOL-Library.Word"
begin

unbundle bit_operations_syntax

section \<open>The barrier of lib/lock/ulBarrier.c\<close>

text \<open>
  A shallow embedding of \<^verbatim>\<open>ulBarrier.c\<close>. Pointers are addresses that may be
  \<^verbatim>\<open>NULL\<close> (\<open>None\<close>); \<^verbatim>\<open>uint32\<close> is \<open>32 word\<close>, so \<^verbatim>\<open>count++\<close> and
  \<^verbatim>\<open>count--\<close> wrap around as in C. \<^verbatim>\<open>ASSERT\<close> and \<^verbatim>\<open>MXUserDumpAndPanic\<close>
  end the run with a fault.
\<close>

subsection \<open>Data\<close>

type_synonym addr = nat
type_synonym uint32 = "32 word"

definition MXUSER_BARRIER_SIGNATURE :: uint32 where
  "MXUSER_BARRIER_SIGNATURE = 0x52524142"

datatype dump_func = MXUserDumpBarrier

record MXUserHeader =
  signature :: uint32
  name :: "addr option"
  rank :: uint32
  dumpFunc :: "dump_func option"

record BarrierContext =
  count :: uint32
  condVar :: "addr option"

text \<open>
  \<^verbatim>\<open>BarrierContext contexts[2]\<close> is the pair of fields \<open>contexts0\<close>, \<open>contexts1\<close>;
  \<open>contexts\<close> and \<open>contexts_update\<close> index it. An index outside the array is checked
  by the caller where the source does not mask it.
\<close>

record MXUserBarrier =
  header :: MXUserHeader
  lock :: "addr option"
  emptying :: bool
  configCount :: uint32
  curContext :: uint32
  contexts0 :: BarrierContext
  contexts1 :: BarrierContext

definition contexts :: "MXUserBarrier \<Rightarrow> uint32 \<Rightarrow> BarrierContext" where
  "contexts b i = (if i = 0 then contexts0 b else contexts1 b)"

definition contexts_update ::
  "uint32 \<Rightarrow> (BarrierContext \<Rightarrow> BarrierContext) \<Rightarrow> MXUserBarrier \<Rightarrow> MXUserBarrier" where
  "contexts_update i f b =
     (if i = 0 then b\<lparr>contexts0 := f (contexts0 b)\<rparr> else b\<lparr>contexts1 := f (contexts1 b)\<rparr>)"

datatype fault = AssertFailure | Panic | OutOfBounds | BadPointer

subsection \<open>MXUser_EnterBarrier\<close>

text \<open>
  The calls the function makes on its condition variables. The lock is held from
  \<^verbatim>\<open>MXUser_AcquireExclLock\<close> to the wait, and from the wake-up to
  \<^verbatim>\<open>MXUser_ReleaseExclLock\<close>, so the function runs as two segments: \<open>enter_arrive\<close>
  (lines 233 to 278, up to the wait or the broadcast) and \<open>enter_leave\<close> (lines 280 to
  287). A thread that broadcasts runs both without letting go of the lock.
\<close>

datatype cv_call =
  WaitCondVarExclLock "addr option" "addr option"
| BroadcastCondVar "addr option"

definition enter_arrive ::
  "MXUserBarrier option \<Rightarrow> fault + (MXUserBarrier \<times> uint32 \<times> cv_call)" where
  "enter_arrive p =
     (case p of
        None \<Rightarrow> Inl AssertFailure
      | Some b \<Rightarrow>
          if signature (header b) \<noteq> MXUSER_BARRIER_SIGNATURE then Inl AssertFailure
          else if emptying b then
            (let other = (curContext b + 1) AND 1;
                 b1 = contexts_update other (\<lambda>c. c\<lparr>count := count c + 1\<rparr>) b
             in Inr (b1, other, WaitCondVarExclLock (lock b1) (condVar (contexts b1 other))))
          else if \<not> curContext b < 2 then Inl OutOfBounds
          else
            (let ptr = curContext b;
                 b1 = contexts_update ptr (\<lambda>c. c\<lparr>count := count c + 1\<rparr>) b;
                 b2 = b1\<lparr>emptying := (count (contexts b1 ptr) = configCount b1)\<rparr>
             in if emptying b2
                then Inr (b2, ptr, BroadcastCondVar (condVar (contexts b2 ptr)))
                else Inr (b2, ptr, WaitCondVarExclLock (lock b2) (condVar (contexts b2 ptr)))))"

definition enter_leave :: "MXUserBarrier \<Rightarrow> uint32 \<Rightarrow> MXUserBarrier" where
  "enter_leave b ptr =
     (let b1 = contexts_update ptr (\<lambda>c. c\<lparr>count := count c - 1\<rparr>) b
      in if count (contexts b1 ptr) = 0
         then b1\<lparr>emptying := False, curContext := (curContext b1 + 1) AND 1\<rparr>
         else b1)"

text \<open>
  One call by a thread that nobody interrupts: it returns with the barrier it leaves
  behind, or it is parked (on the context \<open>ptr\<close>) until some other thread broadcasts.
\<close>

datatype enter_result = Returned MXUserBarrier | Parked MXUserBarrier uint32

definition MXUser_EnterBarrier :: "MXUserBarrier option \<Rightarrow> fault + enter_result" where
  "MXUser_EnterBarrier p =
     (case enter_arrive p of
        Inl f \<Rightarrow> Inl f
      | Inr (b, ptr, BroadcastCondVar cv) \<Rightarrow> Inr (Returned (enter_leave b ptr))
      | Inr (b, ptr, WaitCondVarExclLock l cv) \<Rightarrow> Inr (Parked b ptr))"

fun enter_times :: "nat \<Rightarrow> MXUserBarrier \<Rightarrow> MXUserBarrier option" where
  "enter_times 0 b = Some b"
| "enter_times (Suc n) b =
     (case MXUser_EnterBarrier (Some b) of
        Inr (Returned b') \<Rightarrow> enter_times n b'
      | _ \<Rightarrow> None)"

subsection \<open>Threads entering one barrier\<close>

text \<open>
  Modelled from the spec: the lock and the condition variables
  (\<^verbatim>\<open>MXUser_AcquireExclLock\<close>, \<^verbatim>\<open>MXUser_WaitCondVarExclLock\<close>,
  \<^verbatim>\<open>MXUser_BroadcastCondVar\<close>, \<^verbatim>\<open>MXUser_ReleaseExclLock\<close>) are not part of
  \<^verbatim>\<open>ulBarrier.c\<close>. Section 6 of the specification gives them monitor semantics: a
  wait releases the lock, parks, and reacquires the lock before returning; a broadcast
  wakes all current waiters of that condition variable; nothing else wakes a waiter.
  So a thread is in one of the states below, the segments of \<^verbatim>\<open>MXUser_EnterBarrier\<close>
  between two lock hand-overs are atomic, and a schedule is the list of the threads that
  take the lock, in order. Scheduling a thread that cannot move changes nothing.
\<close>

datatype thread =
  NotCalled
| Waiting uint32 "addr option"
| Woken uint32
| Finished
| Crashed fault

record barrier_sys =
  bar :: MXUserBarrier
  threads :: "thread list"

definition wake :: "addr option \<Rightarrow> thread \<Rightarrow> thread" where
  "wake cv t = (case t of Waiting ptr cv' \<Rightarrow> if cv' = cv then Woken ptr else t | _ \<Rightarrow> t)"

definition sys_step :: "nat \<Rightarrow> barrier_sys \<Rightarrow> barrier_sys" where
  "sys_step i s =
     (if \<not> i < length (threads s) then s
      else case threads s ! i of
        NotCalled \<Rightarrow>
          (case enter_arrive (Some (bar s)) of
             Inl f \<Rightarrow> s\<lparr>threads := (threads s)[i := Crashed f]\<rparr>
           | Inr (b, ptr, WaitCondVarExclLock l cv) \<Rightarrow>
               \<lparr>bar = b, threads = (threads s)[i := Waiting ptr cv]\<rparr>
           | Inr (b, ptr, BroadcastCondVar cv) \<Rightarrow>
               \<lparr>bar = enter_leave b ptr, threads = (map (wake cv) (threads s))[i := Finished]\<rparr>)
      | Woken ptr \<Rightarrow> \<lparr>bar = enter_leave (bar s) ptr, threads = (threads s)[i := Finished]\<rparr>
      | _ \<Rightarrow> s)"

fun sys_run :: "nat list \<Rightarrow> barrier_sys \<Rightarrow> barrier_sys" where
  "sys_run [] s = s"
| "sys_run (i # sched) s = sys_run sched (sys_step i s)"

definition sys_init :: "MXUserBarrier \<Rightarrow> barrier_sys" where
  "sys_init b = \<lparr>bar = b, threads = replicate (unat (configCount b)) NotCalled\<rparr>"

text \<open>A barrier at rest: valid, nobody inside, not emptying.\<close>

definition at_rest :: "MXUserBarrier \<Rightarrow> bool" where
  "at_rest b \<longleftrightarrow>
     signature (header b) = MXUSER_BARRIER_SIGNATURE \<and> \<not> emptying b \<and> curContext b < 2 \<and>
     count (contexts b 0) = 0 \<and> count (contexts b 1) = 0"

text \<open>
  One round, seen from a barrier \<open>b0\<close> at rest. While the threads gather, each thread has
  either not called yet or waits on the current context, whose count is the number of
  waiting threads, and somebody has not called yet. While the round drains, each thread
  has been woken or has returned, and the count is the number of woken threads that have
  not left yet; the last one out toggles \<open>curContext\<close>.
\<close>

definition gathering :: "MXUserBarrier \<Rightarrow> barrier_sys \<Rightarrow> bool" where
  "gathering b0 s \<longleftrightarrow>
     (\<forall>t \<in> set (threads s).
        t = NotCalled \<or> t = Waiting (curContext b0) (condVar (contexts b0 (curContext b0)))) \<and>
     NotCalled \<in> set (threads s) \<and>
     bar s = contexts_update (curContext b0)
       (\<lambda>c. c\<lparr>count := of_nat (count_list (threads s)
                  (Waiting (curContext b0) (condVar (contexts b0 (curContext b0)))))\<rparr>) b0"

definition draining :: "MXUserBarrier \<Rightarrow> barrier_sys \<Rightarrow> bool" where
  "draining b0 s \<longleftrightarrow>
     (\<forall>t \<in> set (threads s). t = Woken (curContext b0) \<or> t = Finished) \<and>
     bar s =
       (if count_list (threads s) (Woken (curContext b0)) = 0
        then b0\<lparr>curContext := 1 - curContext b0\<rparr>
        else (contexts_update (curContext b0)
               (\<lambda>c. c\<lparr>count := of_nat (count_list (threads s) (Woken (curContext b0)))\<rparr>) b0)
             \<lparr>emptying := True\<rparr>)"

definition round_inv :: "MXUserBarrier \<Rightarrow> barrier_sys \<Rightarrow> bool" where
  "round_inv b0 s \<longleftrightarrow>
     length (threads s) = unat (configCount b0) \<and> (gathering b0 s \<or> draining b0 s)"

text \<open>A schedule that runs each of the threads \<open>0\<close> to \<open>n - 1\<close> at least once.\<close>

definition covers :: "nat \<Rightarrow> nat list \<Rightarrow> bool" where
  "covers n sched \<longleftrightarrow> (\<forall>i < n. i \<in> set sched)"

subsection \<open>The process state\<close>

text \<open>
  Modelled from the spec: memory allocation, the exclusive lock, the condition variable
  and the atomic pointer cell are collaborators outside \<^verbatim>\<open>ulBarrier.c\<close> (sections 1
  and 6 of the specification). The state below keeps what the barrier code can observe of
  them: which blocks \<^verbatim>\<open>malloc\<close> has handed out and not yet got back, the contents of
  barrier and string memory (a freed block keeps its contents, addresses are never handed
  out twice), the live locks and condition variables, and the atomic cells.
  \<^verbatim>\<open>MXUser_CreateExclLock\<close> and \<^verbatim>\<open>MXUser_CreateCondVarExclLock\<close> may return
  \<^verbatim>\<open>NULL\<close>: \<open>allocPlan\<close> lists, for the calls to come, whether each succeeds (an
  exhausted plan means success). The \<^verbatim>\<open>Safe\<close> allocators do not return \<^verbatim>\<open>NULL\<close>.
  The destroy functions and \<^verbatim>\<open>free\<close> do nothing on \<^verbatim>\<open>NULL\<close>.
\<close>

record world =
  nextAddr :: addr
  allocPlan :: "bool list"
  mallocd :: "addr set"
  barrierMem :: "addr \<rightharpoonup> MXUserBarrier"
  strMem :: "addr \<rightharpoonup> string"
  exclLocks :: "addr set"
  condVars :: "addr \<rightharpoonup> addr option"
  atomicPtrs :: "addr \<Rightarrow> addr option"

definition zero_barrier :: MXUserBarrier where
  "zero_barrier =
     \<lparr>header = \<lparr>signature = 0, name = None, rank = 0, dumpFunc = None\<rparr>,
      lock = None, emptying = False, configCount = 0, curContext = 0,
      contexts0 = \<lparr>count = 0, condVar = None\<rparr>,
      contexts1 = \<lparr>count = 0, condVar = None\<rparr>\<rparr>"

definition Util_SafeCalloc :: "world \<Rightarrow> addr \<times> world" where
  "Util_SafeCalloc w =
     (nextAddr w,
      w\<lparr>nextAddr := Suc (nextAddr w),
        mallocd := insert (nextAddr w) (mallocd w),
        barrierMem := (barrierMem w)(nextAddr w \<mapsto> zero_barrier)\<rparr>)"

definition Util_SafeStrdup :: "string \<Rightarrow> world \<Rightarrow> addr \<times> world" where
  "Util_SafeStrdup str w =
     (nextAddr w,
      w\<lparr>nextAddr := Suc (nextAddr w),
        mallocd := insert (nextAddr w) (mallocd w),
        strMem := (strMem w)(nextAddr w \<mapsto> str)\<rparr>)"

text \<open>\<open>ra\<close> is the \<^verbatim>\<open>%p\<close> rendering of \<^verbatim>\<open>GetReturnAddress()\<close>.\<close>

definition Str_SafeAsprintf_Barrier :: "string \<Rightarrow> world \<Rightarrow> addr \<times> world" where
  "Str_SafeAsprintf_Barrier ra w = Util_SafeStrdup (''Barrier-'' @ ra) w"

definition free :: "addr option \<Rightarrow> world \<Rightarrow> world" where
  "free p w = (case p of None \<Rightarrow> w | Some a \<Rightarrow> w\<lparr>mallocd := mallocd w - {a}\<rparr>)"

definition next_outcome :: "world \<Rightarrow> bool \<times> world" where
  "next_outcome w =
     (case allocPlan w of [] \<Rightarrow> (True, w) | ok # plan \<Rightarrow> (ok, w\<lparr>allocPlan := plan\<rparr>))"

definition MXUser_CreateExclLock :: "addr \<Rightarrow> uint32 \<Rightarrow> world \<Rightarrow> addr option \<times> world" where
  "MXUser_CreateExclLock nm rk w =
     (let (ok, w1) = next_outcome w
      in if ok
         then (Some (nextAddr w1),
               w1\<lparr>nextAddr := Suc (nextAddr w1), exclLocks := insert (nextAddr w1) (exclLocks w1)\<rparr>)
         else (None, w1))"

definition MXUser_CreateCondVarExclLock :: "addr option \<Rightarrow> world \<Rightarrow> addr option \<times> world" where
  "MXUser_CreateCondVarExclLock lk w =
     (let (ok, w1) = next_outcome w
      in if ok
         then (Some (nextAddr w1),
               w1\<lparr>nextAddr := Suc (nextAddr w1), condVars := (condVars w1)(nextAddr w1 \<mapsto> lk)\<rparr>)
         else (None, w1))"

definition MXUser_DestroyCondVar :: "addr option \<Rightarrow> world \<Rightarrow> world" where
  "MXUser_DestroyCondVar cv w =
     (case cv of None \<Rightarrow> w | Some a \<Rightarrow> w\<lparr>condVars := (condVars w)(a := None)\<rparr>)"

definition MXUser_DestroyExclLock :: "addr option \<Rightarrow> world \<Rightarrow> world" where
  "MXUser_DestroyExclLock lk w =
     (case lk of None \<Rightarrow> w | Some a \<Rightarrow> w\<lparr>exclLocks := exclLocks w - {a}\<rparr>)"

definition Atomic_ReadPtr :: "addr \<Rightarrow> world \<Rightarrow> addr option" where
  "Atomic_ReadPtr var w = atomicPtrs w var"

definition Atomic_ReadIfEqualWritePtr ::
  "addr \<Rightarrow> addr option \<Rightarrow> addr option \<Rightarrow> world \<Rightarrow> addr option \<times> world" where
  "Atomic_ReadIfEqualWritePtr var oldVal newVal w =
     (atomicPtrs w var,
      if atomicPtrs w var = oldVal then w\<lparr>atomicPtrs := (atomicPtrs w)(var := newVal)\<rparr> else w)"

text \<open>A store through a barrier pointer: \<^verbatim>\<open>barrier->field = ...\<close>.\<close>

definition barrier_write :: "addr \<Rightarrow> (MXUserBarrier \<Rightarrow> MXUserBarrier) \<Rightarrow> world \<Rightarrow> world" where
  "barrier_write a f w =
     (case barrierMem w a of
        None \<Rightarrow> w
      | Some b \<Rightarrow> w\<lparr>barrierMem := (barrierMem w)(a \<mapsto> f b)\<rparr>)"

subsection \<open>MXUser_CreateBarrier\<close>

definition MXUser_CreateBarrier ::
  "string \<Rightarrow> string option \<Rightarrow> uint32 \<Rightarrow> uint32 \<Rightarrow> world \<Rightarrow> (fault \<times> world) + (addr option \<times> world)" where
  "MXUser_CreateBarrier ra userName rk cnt w =
     (if cnt = 0 then Inl (AssertFailure, w)
      else
        let (barrier, w1) = Util_SafeCalloc w;
            (properName, w2) =
               (case userName of
                  None \<Rightarrow> Str_SafeAsprintf_Barrier ra w1
                | Some str \<Rightarrow> Util_SafeStrdup str w1);
            (lk, w3) = MXUser_CreateExclLock properName rk w2;
            w4 = barrier_write barrier (\<lambda>b. b\<lparr>lock := lk\<rparr>) w3
        in if lk = None then Inr (None, free (Some barrier) (free (Some properName) w4))
           else
             let (cv0, w5) = MXUser_CreateCondVarExclLock lk w4;
                 w6 = barrier_write barrier (contexts_update 0 (\<lambda>c. c\<lparr>condVar := cv0\<rparr>)) w5;
                 (cv1, w7) = MXUser_CreateCondVarExclLock lk w6;
                 w8 = barrier_write barrier (contexts_update 1 (\<lambda>c. c\<lparr>condVar := cv1\<rparr>)) w7
             in if cv0 = None \<or> cv1 = None
                then Inr (None,
                       free (Some barrier) (free (Some properName)
                         (MXUser_DestroyExclLock lk
                           (MXUser_DestroyCondVar cv1 (MXUser_DestroyCondVar cv0 w8)))))
                else Inr (Some barrier,
                       barrier_write barrier
                         (\<lambda>b. b\<lparr>configCount := cnt, emptying := False, curContext := 0,
                                header := \<lparr>signature = MXUSER_BARRIER_SIGNATURE,
                                           name = Some properName, rank = rk,
                                           dumpFunc = Some MXUserDumpBarrier\<rparr>\<rparr>) w8))"

subsection \<open>MXUser_DestroyBarrier\<close>

text \<open>
  \<^verbatim>\<open>MXUserDumpAndPanic\<close> prints the dump and does not return: the run ends with \<open>Panic\<close>
  in the state it had. A pointer to memory that never held a barrier is \<open>BadPointer\<close>.
\<close>

definition MXUser_DestroyBarrier :: "addr option \<Rightarrow> world \<Rightarrow> (fault \<times> world) + world" where
  "MXUser_DestroyBarrier barrier w =
     (case barrier of
        None \<Rightarrow> Inr w
      | Some a \<Rightarrow>
          (case barrierMem w a of
             None \<Rightarrow> Inl (BadPointer, w)
           | Some b \<Rightarrow>
               if signature (header b) \<noteq> MXUSER_BARRIER_SIGNATURE then Inl (AssertFailure, w)
               else if count (contexts b 0) \<noteq> 0 \<or> count (contexts b 1) \<noteq> 0
               then Inl (Panic, w)
               else
                 let w1 = MXUser_DestroyCondVar (condVar (contexts b 0)) w;
                     w2 = MXUser_DestroyCondVar (condVar (contexts b 1)) w1;
                     w3 = MXUser_DestroyExclLock (lock b) w2;
                     w4 = barrier_write a (\<lambda>b. b\<lparr>header := (header b)\<lparr>signature := 0\<rparr>\<rparr>) w3;
                     w5 = free (name (header b)) w4;
                     w6 = barrier_write a (\<lambda>b. b\<lparr>header := (header b)\<lparr>name := None\<rparr>\<rparr>) w5
                 in Inr (free (Some a) w6)))"

subsection \<open>MXUser_CreateSingletonBarrier\<close>

definition MXUser_CreateSingletonBarrier ::
  "string \<Rightarrow> addr option \<Rightarrow> string option \<Rightarrow> uint32 \<Rightarrow> uint32 \<Rightarrow> world
     \<Rightarrow> (fault \<times> world) + (addr option \<times> world)" where
  "MXUser_CreateSingletonBarrier ra barrierStorage nm rk cnt w =
     (case barrierStorage of
        None \<Rightarrow> Inl (AssertFailure, w)
      | Some var \<Rightarrow>
          (let barrier = Atomic_ReadPtr var w
           in if barrier = None
              then (case MXUser_CreateBarrier ra nm rk cnt w of
                      Inl f \<Rightarrow> Inl f
                    | Inr (newBarrier, w1) \<Rightarrow>
                        (let (barrier, w2) = Atomic_ReadIfEqualWritePtr var None newBarrier w1
                         in if barrier \<noteq> None
                            then (case MXUser_DestroyBarrier newBarrier w2 of
                                    Inl f \<Rightarrow> Inl f
                                  | Inr w3 \<Rightarrow> Inr (barrier, w3))
                            else Inr (Atomic_ReadPtr var w2, w2)))
              else Inr (barrier, w)))"

text \<open>
  The same function, one shared-memory access at a time, for threads that race on one
  cell: each constructor is the place a thread is at, with its local variables
  (\<^verbatim>\<open>newBarrier\<close>; \<^verbatim>\<open>barrier\<close> and \<^verbatim>\<open>newBarrier\<close>). Creating and destroying a
  candidate touch only memory no other thread has a pointer to, so each is one step.
\<close>

datatype racer =
  At_Read
| At_Create
| At_CAS "addr option"
| At_Destroy "addr option" "addr option"
| At_Reread
| Done "addr option"
| Aborted fault

record race_args =
  arg_ra :: string
  arg_var :: addr
  arg_name :: "string option"
  arg_rank :: uint32
  arg_count :: uint32

definition racer_step :: "race_args \<Rightarrow> racer \<Rightarrow> world \<Rightarrow> racer \<times> world" where
  "racer_step args t w =
     (case t of
        At_Read \<Rightarrow>
          (let barrier = Atomic_ReadPtr (arg_var args) w
           in if barrier = None then (At_Create, w) else (Done barrier, w))
      | At_Create \<Rightarrow>
          (case MXUser_CreateBarrier (arg_ra args) (arg_name args) (arg_rank args) (arg_count args) w of
             Inl (f, w1) \<Rightarrow> (Aborted f, w1)
           | Inr (newBarrier, w1) \<Rightarrow> (At_CAS newBarrier, w1))
      | At_CAS newBarrier \<Rightarrow>
          (let (barrier, w1) = Atomic_ReadIfEqualWritePtr (arg_var args) None newBarrier w
           in if barrier \<noteq> None then (At_Destroy barrier newBarrier, w1) else (At_Reread, w1))
      | At_Destroy barrier newBarrier \<Rightarrow>
          (case MXUser_DestroyBarrier newBarrier w of
             Inl (f, w1) \<Rightarrow> (Aborted f, w1)
           | Inr w1 \<Rightarrow> (Done barrier, w1))
      | At_Reread \<Rightarrow> (Done (Atomic_ReadPtr (arg_var args) w), w)
      | Done barrier \<Rightarrow> (Done barrier, w)
      | Aborted f \<Rightarrow> (Aborted f, w))"

record race =
  world_of :: world
  racers :: "racer list"

definition race_step :: "race_args \<Rightarrow> nat \<Rightarrow> race \<Rightarrow> race" where
  "race_step args i s =
     (if \<not> i < length (racers s) then s
      else let (t, w) = racer_step args (racers s ! i) (world_of s)
           in \<lparr>world_of = w, racers = (racers s)[i := t]\<rparr>)"

fun race_run :: "race_args \<Rightarrow> nat list \<Rightarrow> race \<Rightarrow> race" where
  "race_run args [] s = s"
| "race_run args (i # sched) s = race_run args sched (race_step args i s)"

subsection \<open>Well-formed process states\<close>

text \<open>The barrier that a successful \<^verbatim>\<open>MXUser_CreateBarrier\<close> leaves at address \<open>a\<close>.\<close>

definition new_barrier :: "addr \<Rightarrow> uint32 \<Rightarrow> uint32 \<Rightarrow> MXUserBarrier" where
  "new_barrier a rk cnt =
     \<lparr>header = \<lparr>signature = MXUSER_BARRIER_SIGNATURE, name = Some (a + 1), rank = rk,
                dumpFunc = Some MXUserDumpBarrier\<rparr>,
      lock = Some (a + 2), emptying = False, configCount = cnt, curContext = 0,
      contexts0 = \<lparr>count = 0, condVar = Some (a + 3)\<rparr>,
      contexts1 = \<lparr>count = 0, condVar = Some (a + 4)\<rparr>\<rparr>"

text \<open>
  Whether the \<open>k\<close>-th fallible creation from now on succeeds, and a process state in
  which every address in use is below the next one to be handed out.
\<close>

definition planned :: "nat \<Rightarrow> world \<Rightarrow> bool" where
  "planned k w = (case drop k (allocPlan w) of [] \<Rightarrow> True | ok # _ \<Rightarrow> ok)"

definition wf_world :: "world \<Rightarrow> bool" where
  "wf_world w \<longleftrightarrow>
     (\<forall>a \<in> mallocd w. a < nextAddr w) \<and> (\<forall>a \<in> exclLocks w. a < nextAddr w) \<and>
     (\<forall>a \<in> dom (condVars w). a < nextAddr w) \<and> (\<forall>a \<in> dom (barrierMem w). a < nextAddr w) \<and>
     (\<forall>a \<in> dom (strMem w). a < nextAddr w)"

subsection \<open>Example states\<close>

text \<open>
  A valid barrier as \<^verbatim>\<open>MXUser_CreateBarrier\<close> lays it out (name at address 1, lock 2,
  condition variables 3 and 4), with the given configuration and counts.
\<close>

definition example_barrier :: "uint32 \<Rightarrow> bool \<Rightarrow> uint32 \<Rightarrow> uint32 \<Rightarrow> uint32 \<Rightarrow> MXUserBarrier" where
  "example_barrier cfg emp cur c0 c1 =
     \<lparr>header = \<lparr>signature = MXUSER_BARRIER_SIGNATURE, name = Some 1, rank = 0,
                dumpFunc = Some MXUserDumpBarrier\<rparr>,
      lock = Some 2, emptying = emp, configCount = cfg, curContext = cur,
      contexts0 = \<lparr>count = c0, condVar = Some 3\<rparr>,
      contexts1 = \<lparr>count = c1, condVar = Some 4\<rparr>\<rparr>"

text \<open>A process state that holds nothing yet; its next free address is \<open>n\<close>.\<close>

definition empty_world :: "addr \<Rightarrow> bool list \<Rightarrow> world" where
  "empty_world n plan =
     \<lparr>nextAddr = n, allocPlan = plan, mallocd = {}, barrierMem = Map.empty, strMem = Map.empty,
      exclLocks = {}, condVars = Map.empty, atomicPtrs = (\<lambda>_. None)\<rparr>"

text \<open>
  The process state after a successful \<^verbatim>\<open>MXUser_CreateBarrier\<close> from the empty state at
  address 0: the barrier \<open>b\<close> at address 0 and its name, lock and condition variables.
\<close>

definition example_world :: "MXUserBarrier \<Rightarrow> world" where
  "example_world b =
     \<lparr>nextAddr = 5, allocPlan = [], mallocd = {0, 1}, barrierMem = [0 \<mapsto> b],
      strMem = [1 \<mapsto> ''B''], exclLocks = {2}, condVars = [3 \<mapsto> Some 2, 4 \<mapsto> Some 2],
      atomicPtrs = (\<lambda>_. None)\<rparr>"

subsection \<open>Accounting for a race\<close>

text \<open>
  What the proof about racing callers keeps track of. A thread between creating its
  candidate and destroying it (or installing it) holds that candidate (\<open>cand\<close>); a
  candidate created at address \<open>c\<close> occupies the addresses \<open>c\<close> to \<open>c + 4\<close> (barrier, name,
  lock, two condition variables), so two candidates are \<open>apart\<close> when these blocks do not
  overlap. \<open>accounted w0 w own\<close> says that what is live in \<open>w\<close> is what was live in \<open>w0\<close>
  plus the blocks of the barriers in \<open>own\<close>.
\<close>

fun cand :: "racer \<Rightarrow> addr option" where
  "cand (At_CAS newBarrier) = newBarrier"
| "cand (At_Destroy barrier newBarrier) = newBarrier"
| "cand _ = None"

definition in_flight :: "addr option list \<Rightarrow> addr set" where
  "in_flight cs = {c. Some c \<in> set cs}"

definition apart :: "addr \<Rightarrow> addr \<Rightarrow> bool" where
  "apart c c' \<longleftrightarrow> c + 5 \<le> c' \<or> c' + 5 \<le> c"

definition pairwise_apart :: "addr option list \<Rightarrow> bool" where
  "pairwise_apart cs \<longleftrightarrow>
     (\<forall>i < length cs. \<forall>j < length cs. \<forall>c c'. i \<noteq> j \<and> cs ! i = Some c \<and> cs ! j = Some c' \<longrightarrow> apart c c')"

text \<open>
  A barrier owned during the race: created after the start (at or above the first free
  address of the initial state \<open>w0\<close>) and still exactly as created.
\<close>

definition good :: "race_args \<Rightarrow> world \<Rightarrow> world \<Rightarrow> addr \<Rightarrow> bool" where
  "good args w0 w c \<longleftrightarrow>
     nextAddr w0 \<le> c \<and> c + 5 \<le> nextAddr w \<and>
     barrierMem w c = Some (new_barrier c (arg_rank args) (arg_count args))"

definition accounted :: "world \<Rightarrow> world \<Rightarrow> addr set \<Rightarrow> bool" where
  "accounted w0 w own \<longleftrightarrow>
     mallocd w = mallocd w0 \<union> own \<union> (\<lambda>c. c + 1) ` own \<and>
     exclLocks w = exclLocks w0 \<union> (\<lambda>c. c + 2) ` own \<and>
     dom (condVars w) = dom (condVars w0) \<union> (\<lambda>c. c + 3) ` own \<union> (\<lambda>c. c + 4) ` own"

definition inv_parts :: "race_args \<Rightarrow> world \<Rightarrow> world \<Rightarrow> addr option list \<Rightarrow> bool" where
  "inv_parts args w0 w cs \<longleftrightarrow>
     wf_world w \<and> nextAddr w0 \<le> nextAddr w \<and> pairwise_apart cs \<and>
     (\<forall>c \<in> in_flight cs. \<forall>p \<in> set_option (atomicPtrs w (arg_var args)). apart c p) \<and>
     (\<forall>c \<in> set_option (atomicPtrs w (arg_var args)) \<union> in_flight cs. good args w0 w c) \<and>
     accounted w0 w (set_option (atomicPtrs w (arg_var args)) \<union> in_flight cs)"

text \<open>What a thread knows about the cell: the value its compare-and-swap returned, or the value it returns.\<close>

fun tfact :: "addr option \<Rightarrow> racer \<Rightarrow> bool" where
  "tfact cell (At_Destroy barrier newBarrier) = (barrier = cell \<and> cell \<noteq> None)"
| "tfact cell (Done (Some p)) = (cell = Some p)"
| "tfact cell _ = True"

definition race_inv :: "race_args \<Rightarrow> world \<Rightarrow> race \<Rightarrow> bool" where
  "race_inv args w0 s \<longleftrightarrow>
     inv_parts args w0 (world_of s) (map cand (racers s)) \<and>
     (\<forall>t \<in> set (racers s). tfact (atomicPtrs (world_of s) (arg_var args)) t)"

text \<open>A thread that has returned, and a thread running on its own for \<open>k\<close> steps.\<close>

fun is_done :: "racer \<Rightarrow> bool" where
  "is_done (Done barrier) = True"
| "is_done _ = False"

fun racer_run :: "race_args \<Rightarrow> nat \<Rightarrow> racer \<times> world \<Rightarrow> racer \<times> world" where
  "racer_run args 0 tw = tw"
| "racer_run args (Suc k) tw = racer_run args k (racer_step args (fst tw) (snd tw))"

text \<open>The arguments of an example race on the cell at address 9.\<close>

definition example_args :: race_args where
  "example_args = \<lparr>arg_ra = ''0x1'', arg_var = 9, arg_name = None, arg_rank = 0, arg_count = 2\<rparr>"

section \<open>Properties\<close>

subsection \<open>Indexing the two contexts\<close>

lemma contexts_update_same [simp]: "contexts (contexts_update i f b) i = f (contexts b i)"
  by (simp add: contexts_def contexts_update_def)

lemma word_lt2: "(c::uint32) < 2 \<Longrightarrow> c = 0 \<or> c = 1"
proof -
  assume "c < 2"
  then have "unat c < 2" by (simp add: word_less_nat_alt)
  then have "unat c = unat (0::uint32) \<or> unat c = unat (1::uint32)" by auto
  then show ?thesis by (simp only: word_unat_eq_iff)
qed

lemma other_index: "(c::uint32) < 2 \<Longrightarrow> (c + 1) AND 1 = 1 - c"
  using word_lt2[of c] by auto

subsection \<open>Arriving at the barrier\<close>

text \<open>
  C1. A normal arrival (\<open>emptying\<close> is false) at a valid barrier registers in
  \<open>contexts[curContext]\<close>: that context's count goes up by one and the other context is
  untouched. If the new count equals \<open>configCount\<close>, \<open>emptying\<close> becomes true, the call
  made is a broadcast on that context's condition variable, and the thread goes on to
  leave without being parked; otherwise \<open>emptying\<close> stays false and the thread waits on
  that context's condition variable.
\<close>

theorem enter_normal_arrival:
  assumes "signature (header b) = MXUSER_BARRIER_SIGNATURE"
    and "\<not> emptying b" and "curContext b < 2"
  shows "\<exists>b' call.
     enter_arrive (Some b) = Inr (b', curContext b, call) \<and>
     count (contexts b' (curContext b)) = count (contexts b (curContext b)) + 1 \<and>
     condVar (contexts b' (curContext b)) = condVar (contexts b (curContext b)) \<and>
     contexts b' (1 - curContext b) = contexts b (1 - curContext b) \<and>
     curContext b' = curContext b \<and> configCount b' = configCount b \<and>
     (count (contexts b' (curContext b)) = configCount b \<longrightarrow>
        emptying b' \<and> call = BroadcastCondVar (condVar (contexts b (curContext b))) \<and>
        MXUser_EnterBarrier (Some b) = Inr (Returned (enter_leave b' (curContext b)))) \<and>
     (count (contexts b' (curContext b)) \<noteq> configCount b \<longrightarrow>
        \<not> emptying b' \<and>
        call = WaitCondVarExclLock (lock b) (condVar (contexts b (curContext b))) \<and>
        MXUser_EnterBarrier (Some b) = Inr (Parked b' (curContext b)))"
  using assms word_lt2[of "curContext b"]
  by (auto simp: MXUser_EnterBarrier_def enter_arrive_def Let_def contexts_def contexts_update_def)

theorem enter_normal_arrival_witness:
  "signature (header (example_barrier 3 False 0 1 0)) = MXUSER_BARRIER_SIGNATURE \<and>
   \<not> emptying (example_barrier 3 False 0 1 0) \<and> curContext (example_barrier 3 False 0 1 0) < 2 \<and>
   enter_arrive (Some (example_barrier 3 False 0 1 0)) =
     Inr (example_barrier 3 False 0 2 0, 0, WaitCondVarExclLock (Some 2) (Some 3)) \<and>
   MXUser_EnterBarrier (Some (example_barrier 3 False 0 1 0)) =
     Inr (Parked (example_barrier 3 False 0 2 0) 0) \<and>
   enter_arrive (Some (example_barrier 3 False 1 0 2)) =
     Inr (example_barrier 3 True 1 0 3, 1, BroadcastCondVar (Some 4)) \<and>
   MXUser_EnterBarrier (Some (example_barrier 3 False 1 0 2)) =
     Inr (Returned (example_barrier 3 True 1 0 2))"
  using enter_normal_arrival[of "example_barrier 3 False 0 1 0"]
    enter_normal_arrival[of "example_barrier 3 False 1 0 2"]
  by (simp add: example_barrier_def MXUser_EnterBarrier_def enter_arrive_def enter_leave_def
      Let_def contexts_def contexts_update_def)

text \<open>
  C2. An arrival while the barrier is emptying registers in the other context, index
  \<open>1 - curContext\<close>: that count goes up by one, the thread waits on that context's
  condition variable, and the current (draining) context, its count included, is left
  as it was.
\<close>

theorem enter_abnormal_arrival:
  assumes "signature (header b) = MXUSER_BARRIER_SIGNATURE"
    and "emptying b" and "curContext b < 2"
  shows "\<exists>b'.
     enter_arrive (Some b) =
       Inr (b', 1 - curContext b,
            WaitCondVarExclLock (lock b) (condVar (contexts b (1 - curContext b)))) \<and>
     MXUser_EnterBarrier (Some b) = Inr (Parked b' (1 - curContext b)) \<and>
     count (contexts b' (1 - curContext b)) = count (contexts b (1 - curContext b)) + 1 \<and>
     contexts b' (curContext b) = contexts b (curContext b) \<and>
     emptying b' \<and> curContext b' = curContext b \<and> configCount b' = configCount b"
  using assms word_lt2[of "curContext b"]
  by (auto simp: MXUser_EnterBarrier_def enter_arrive_def Let_def contexts_def contexts_update_def)

theorem enter_abnormal_arrival_witness:
  "signature (header (example_barrier 3 True 0 2 0)) = MXUSER_BARRIER_SIGNATURE \<and>
   emptying (example_barrier 3 True 0 2 0) \<and> curContext (example_barrier 3 True 0 2 0) < 2 \<and>
   enter_arrive (Some (example_barrier 3 True 0 2 0)) =
     Inr (example_barrier 3 True 0 2 1, 1, WaitCondVarExclLock (Some 2) (Some 4)) \<and>
   count (contexts (example_barrier 3 True 0 2 1) 0) = 2 \<and>
   MXUser_EnterBarrier (Some (example_barrier 3 True 1 5 1)) =
     Inr (Parked (example_barrier 3 True 1 6 1) 0)"
  using enter_abnormal_arrival[of "example_barrier 3 True 0 2 0"]
     enter_abnormal_arrival[of "example_barrier 3 True 1 5 1"]
  by (simp add: example_barrier_def MXUser_EnterBarrier_def enter_arrive_def enter_leave_def
      Let_def contexts_def contexts_update_def)

subsection \<open>Leaving the barrier\<close>

text \<open>
  C3. On the way out a thread takes one off the count of the context \<open>ptr\<close> it registered
  in, and leaves the other context alone. If that brings the count to 0, \<open>emptying\<close> is
  cleared and \<open>curContext\<close> becomes the other index; if not, \<open>emptying\<close> and \<open>curContext\<close>
  keep their values. So \<open>curContext\<close> changes exactly when the count reaches 0, and the
  arrival segment never changes it.
\<close>

theorem enter_exit_handoff:
  assumes "curContext b < 2" and "ptr < 2"
  shows "count (contexts (enter_leave b ptr) ptr) = count (contexts b ptr) - 1 \<and>
     contexts (enter_leave b ptr) (1 - ptr) = contexts b (1 - ptr) \<and>
     (count (contexts b ptr) - 1 = 0 \<longrightarrow>
        \<not> emptying (enter_leave b ptr) \<and> curContext (enter_leave b ptr) = 1 - curContext b) \<and>
     (count (contexts b ptr) - 1 \<noteq> 0 \<longrightarrow>
        emptying (enter_leave b ptr) = emptying b \<and> curContext (enter_leave b ptr) = curContext b) \<and>
     (curContext (enter_leave b ptr) \<noteq> curContext b \<longleftrightarrow> count (contexts b ptr) - 1 = 0) \<and>
     (\<forall>b1 p call. enter_arrive (Some b) = Inr (b1, p, call) \<longrightarrow> curContext b1 = curContext b)"
  using assms word_lt2[of "curContext b"] word_lt2[of ptr]
  by (auto simp: enter_arrive_def enter_leave_def Let_def contexts_def contexts_update_def
      split: if_splits)

theorem enter_exit_handoff_witness:
  "curContext (example_barrier 3 True 0 1 2) < 2 \<and> (0::uint32) < 2 \<and>
   enter_leave (example_barrier 3 True 0 1 2) 0 = example_barrier 3 False 1 0 2 \<and>
   enter_leave (example_barrier 3 True 0 2 2) 0 = example_barrier 3 True 0 1 2 \<and>
   enter_leave (example_barrier 3 False 0 2 2) 1 = example_barrier 3 False 0 2 1"
  using enter_exit_handoff[of "example_barrier 3 True 0 1 2" 0]
   enter_exit_handoff[of "example_barrier 3 True 0 2 2" 0]
   enter_exit_handoff[of "example_barrier 3 False 0 2 2" 1]
  by (simp add: example_barrier_def MXUser_EnterBarrier_def enter_arrive_def enter_leave_def
      Let_def contexts_def contexts_update_def)

subsection \<open>A party of one\<close>

lemma enter_party_one:
  assumes "at_rest b" and "configCount b = 1"
  shows "enter_arrive (Some b) =
       Inr ((contexts_update (curContext b) (\<lambda>c. c\<lparr>count := 1\<rparr>) b)\<lparr>emptying := True\<rparr>,
            curContext b, BroadcastCondVar (condVar (contexts b (curContext b))))"
    and "enter_leave ((contexts_update (curContext b) (\<lambda>c. c\<lparr>count := 1\<rparr>) b)\<lparr>emptying := True\<rparr>)
          (curContext b) = b\<lparr>curContext := 1 - curContext b\<rparr>"
    and "MXUser_EnterBarrier (Some b) = Inr (Returned (b\<lparr>curContext := 1 - curContext b\<rparr>))"
    and "at_rest (b\<lparr>curContext := 1 - curContext b\<rparr>)"
    and "configCount (b\<lparr>curContext := 1 - curContext b\<rparr>) = 1"
  using assms word_lt2[of "curContext b"]
  by (auto simp: at_rest_def MXUser_EnterBarrier_def enter_arrive_def enter_leave_def Let_def
      contexts_def contexts_update_def)

lemma enter_times_party_one:
  "at_rest b \<Longrightarrow> configCount b = 1 \<Longrightarrow>
   enter_times n b = Some (b\<lparr>curContext := (if even n then curContext b else 1 - curContext b)\<rparr>)"
proof (induction n arbitrary: b)
  case 0
  then show ?case by simp
next
  case (Suc n)
  let ?b = "b\<lparr>curContext := 1 - curContext b\<rparr>"
  have "enter_times (Suc n) b = enter_times n ?b"
    using enter_party_one(3)[OF Suc.prems] by simp
  also have "\<dots> = Some (?b\<lparr>curContext := (if even n then curContext ?b else 1 - curContext ?b)\<rparr>)"
    using Suc.IH[of ?b] enter_party_one(4,5)[OF Suc.prems] by blast
  finally show ?case by simp
qed

text \<open>
  C5. On a barrier at rest with a party count of 1, a call raises the current context's
  count to 1, sets \<open>emptying\<close> and broadcasts; leaving then brings the count back to 0,
  clears \<open>emptying\<close> and toggles \<open>curContext\<close>. The call returns without being parked, the
  barrier it leaves differs from the one it found in \<open>curContext\<close> only, and it is at
  rest again: so does every one of any number of calls in a row.
\<close>

theorem enter_party_count_one:
  assumes "at_rest b" and "configCount b = 1"
  shows "enter_arrive (Some b) =
       Inr ((contexts_update (curContext b) (\<lambda>c. c\<lparr>count := 1\<rparr>) b)\<lparr>emptying := True\<rparr>,
            curContext b, BroadcastCondVar (condVar (contexts b (curContext b)))) \<and>
     enter_leave ((contexts_update (curContext b) (\<lambda>c. c\<lparr>count := 1\<rparr>) b)\<lparr>emptying := True\<rparr>)
          (curContext b) = b\<lparr>curContext := 1 - curContext b\<rparr> \<and>
     MXUser_EnterBarrier (Some b) = Inr (Returned (b\<lparr>curContext := 1 - curContext b\<rparr>)) \<and>
     at_rest (b\<lparr>curContext := 1 - curContext b\<rparr>) \<and>
     enter_times n b =
       Some (b\<lparr>curContext := (if even n then curContext b else 1 - curContext b)\<rparr>)"
  using enter_party_one[OF assms] enter_times_party_one[OF assms] by simp

theorem enter_party_count_one_witness:
  "at_rest (example_barrier 1 False 0 0 0) \<and> configCount (example_barrier 1 False 0 0 0) = 1 \<and>
   enter_arrive (Some (example_barrier 1 False 0 0 0)) =
     Inr (example_barrier 1 True 0 1 0, 0, BroadcastCondVar (Some 3)) \<and>
   enter_leave (example_barrier 1 True 0 1 0) 0 = example_barrier 1 False 1 0 0 \<and>
   MXUser_EnterBarrier (Some (example_barrier 1 False 0 0 0)) =
     Inr (Returned (example_barrier 1 False 1 0 0)) \<and>
   enter_times 3 (example_barrier 1 False 0 0 0) = Some (example_barrier 1 False 1 0 0)"
  using enter_party_count_one[of "example_barrier 1 False 0 0 0" 3]
  by (simp add: example_barrier_def at_rest_def contexts_def contexts_update_def)

subsection \<open>Destroying a barrier\<close>

text \<open>
  C9. \<^verbatim>\<open>MXUser_DestroyBarrier(NULL)\<close> returns normally and leaves the process state as it
  was: no fault, nothing freed, nothing written.
\<close>

theorem destroy_null_is_noop: "MXUser_DestroyBarrier None w = Inr w"
  by (simp add: MXUser_DestroyBarrier_def)

theorem destroy_null_is_noop_witness:
  "MXUser_DestroyBarrier None (example_world (example_barrier 2 False 0 1 0)) =
     Inr (example_world (example_barrier 2 False 0 1 0))"
  by (rule destroy_null_is_noop)

lemma destroy_in_use:
  assumes "barrierMem w a = Some b" and "signature (header b) = MXUSER_BARRIER_SIGNATURE"
    and "count (contexts b 0) \<noteq> 0 \<or> count (contexts b 1) \<noteq> 0"
  shows "MXUser_DestroyBarrier (Some a) w = Inl (Panic, w)"
  using assms by (auto simp: MXUser_DestroyBarrier_def)

lemma destroy_unused:
  assumes "barrierMem w a = Some b" and "signature (header b) = MXUSER_BARRIER_SIGNATURE"
    and "count (contexts b 0) = 0" and "count (contexts b 1) = 0"
  shows "\<exists>w'. MXUser_DestroyBarrier (Some a) w = Inr w' \<and>
     condVars w' = (\<lambda>cv. if Some cv = condVar (contexts b 0) \<or> Some cv = condVar (contexts b 1)
                          then None else condVars w cv) \<and>
     exclLocks w' = exclLocks w - set_option (lock b) \<and>
     mallocd w' = mallocd w - set_option (name (header b)) - {a} \<and>
     barrierMem w' = (barrierMem w)(a \<mapsto> b\<lparr>header := (header b)\<lparr>signature := 0, name := None\<rparr>\<rparr>) \<and>
     strMem w' = strMem w \<and> atomicPtrs w' = atomicPtrs w \<and>
     nextAddr w' = nextAddr w \<and> allocPlan w' = allocPlan w"
  using assms
  by (auto simp: MXUser_DestroyBarrier_def Let_def free_def barrier_write_def
      MXUser_DestroyCondVar_def MXUser_DestroyExclLock_def fun_eq_iff split: option.splits)

text \<open>
  C6. On a valid barrier, \<^verbatim>\<open>MXUser_DestroyBarrier\<close> with a nonzero count in either context
  ends in \<open>Panic\<close> with the process state untouched: nothing has been destroyed or freed.
  With both counts 0 it returns, having destroyed both condition variables and the lock,
  freed the name and the barrier, and left signature 0 (and a null name) in the
  barrier's memory.
\<close>

theorem destroy_requires_empty:
  assumes "barrierMem w a = Some b" and "signature (header b) = MXUSER_BARRIER_SIGNATURE"
  shows "(count (contexts b 0) \<noteq> 0 \<or> count (contexts b 1) \<noteq> 0 \<longrightarrow>
            MXUser_DestroyBarrier (Some a) w = Inl (Panic, w)) \<and>
         (count (contexts b 0) = 0 \<and> count (contexts b 1) = 0 \<longrightarrow>
            (\<exists>w'. MXUser_DestroyBarrier (Some a) w = Inr w' \<and>
               condVars w' =
                 (\<lambda>cv. if Some cv = condVar (contexts b 0) \<or> Some cv = condVar (contexts b 1)
                        then None else condVars w cv) \<and>
               exclLocks w' = exclLocks w - set_option (lock b) \<and>
               mallocd w' = mallocd w - set_option (name (header b)) - {a} \<and>
               barrierMem w' =
                 (barrierMem w)(a \<mapsto> b\<lparr>header := (header b)\<lparr>signature := 0, name := None\<rparr>\<rparr>) \<and>
               strMem w' = strMem w \<and> atomicPtrs w' = atomicPtrs w \<and>
               nextAddr w' = nextAddr w \<and> allocPlan w' = allocPlan w))"
  using destroy_in_use[OF assms] destroy_unused[OF assms] by blast

theorem destroy_requires_empty_witness:
  "barrierMem (example_world (example_barrier 2 False 0 1 0)) 0 = Some (example_barrier 2 False 0 1 0) \<and>
   signature (header (example_barrier 2 False 0 1 0)) = MXUSER_BARRIER_SIGNATURE \<and>
   MXUser_DestroyBarrier (Some 0) (example_world (example_barrier 2 False 0 1 0)) =
     Inl (Panic, example_world (example_barrier 2 False 0 1 0)) \<and>
   (\<exists>w'. MXUser_DestroyBarrier (Some 0) (example_world (example_barrier 2 False 1 0 0)) = Inr w' \<and>
      mallocd w' = {} \<and> exclLocks w' = {} \<and> condVars w' = Map.empty \<and>
      map_option (\<lambda>b. signature (header b)) (barrierMem w' 0) = Some 0)"
  using destroy_requires_empty[of "example_world (example_barrier 2 False 0 1 0)" 0
          "example_barrier 2 False 0 1 0"]
    destroy_requires_empty[of "example_world (example_barrier 2 False 1 0 0)" 0
          "example_barrier 2 False 1 0 0"]
  by (auto simp: example_world_def example_barrier_def contexts_def fun_eq_iff)

subsection \<open>Creating a barrier\<close>

lemma next_outcome_eq: "next_outcome w = (planned 0 w, w\<lparr>allocPlan := drop 1 (allocPlan w)\<rparr>)"
  by (cases "allocPlan w") (simp_all add: next_outcome_def planned_def)

lemmas create_defs = MXUser_CreateBarrier_def Let_def Util_SafeCalloc_def Util_SafeStrdup_def
      Str_SafeAsprintf_Barrier_def MXUser_CreateExclLock_def MXUser_CreateCondVarExclLock_def next_outcome_eq barrier_write_def free_def
      MXUser_DestroyCondVar_def MXUser_DestroyExclLock_def

lemma create_zero: "MXUser_CreateBarrier ra nm rk 0 w = Inl (AssertFailure, w)"
  by (simp add: MXUser_CreateBarrier_def)

lemma create_succeeds:
  assumes "cnt \<noteq> 0" and "planned 0 w" and "planned 1 w" and "planned 2 w"
  shows "\<exists>w'. MXUser_CreateBarrier ra nm rk cnt w = Inr (Some (nextAddr w), w') \<and>
     nextAddr w' = nextAddr w + 5 \<and> allocPlan w' = drop 3 (allocPlan w) \<and>
     mallocd w' = insert (nextAddr w + 1) (insert (nextAddr w) (mallocd w)) \<and>
     barrierMem w' = (barrierMem w)(nextAddr w \<mapsto> new_barrier (nextAddr w) rk cnt) \<and>
     strMem w' = (strMem w)(nextAddr w + 1 \<mapsto> (case nm of None \<Rightarrow> ''Barrier-'' @ ra | Some str \<Rightarrow> str)) \<and>
     exclLocks w' = insert (nextAddr w + 2) (exclLocks w) \<and>
     condVars w' = (condVars w)(nextAddr w + 3 \<mapsto> Some (nextAddr w + 2),
                                     nextAddr w + 4 \<mapsto> Some (nextAddr w + 2)) \<and>
     atomicPtrs w' = atomicPtrs w"
  using assms
  by (cases nm) (simp_all add: create_defs planned_def eval_nat_numeral new_barrier_def zero_barrier_def contexts_update_def)

lemma create_fails:
  assumes "cnt \<noteq> 0" and "\<not> (planned 0 w \<and> planned 1 w \<and> planned 2 w)" and "wf_world w"
  shows "\<exists>w'. MXUser_CreateBarrier ra nm rk cnt w = Inr (None, w') \<and>
     mallocd w' = mallocd w \<and> exclLocks w' = exclLocks w \<and> condVars w' = condVars w \<and>
     atomicPtrs w' = atomicPtrs w \<and> nextAddr w \<le> nextAddr w' \<and> wf_world w' \<and>
     (\<forall>a < nextAddr w. barrierMem w' a = barrierMem w a)"
proof (cases "planned 0 w")
  case False
  with assms(1,3) show ?thesis
    by (cases nm) (auto simp: create_defs planned_def eval_nat_numeral wf_world_def dom_def fun_upd_idem_iff)
next
  case p0: True
  show ?thesis
  proof (cases "planned 1 w")
    case p1: False
    with assms(1,3) p0 show ?thesis
      by (cases nm; cases "planned 2 w") (auto simp: create_defs planned_def eval_nat_numeral wf_world_def dom_def fun_upd_idem_iff contexts_update_def zero_barrier_def)
  next
    case p1: True
    with assms p0 have p2: "\<not> planned 2 w" by simp
    with assms(1,3) p0 p1 show ?thesis
      by (cases nm) (auto simp: create_defs planned_def eval_nat_numeral wf_world_def dom_def fun_upd_idem_iff contexts_update_def zero_barrier_def)
  qed
qed

lemma new_barrier_at_rest: "at_rest (new_barrier a rk cnt)"
  by (simp add: at_rest_def new_barrier_def contexts_def)

text \<open>
  C7. In a well-formed process state, \<^verbatim>\<open>MXUser_CreateBarrier\<close> with a count of 0 ends in
  an assertion failure. With a nonzero count: if the lock and both condition variables
  can be created it returns a new barrier that is valid, has \<open>configCount\<close> equal to the
  count, is not emptying, has \<open>curContext\<close> 0 and both counts 0, and owns a fresh name,
  lock and two distinct condition variables; if the lock or either condition variable
  cannot be created it returns \<^verbatim>\<open>NULL\<close>, and the live \<^verbatim>\<open>malloc\<close> blocks, locks and
  condition variables are those there were before the call.
\<close>

theorem create_outcomes:
  assumes "wf_world w"
  shows "(cnt = 0 \<longrightarrow> MXUser_CreateBarrier ra nm rk cnt w = Inl (AssertFailure, w)) \<and>
     (cnt \<noteq> 0 \<and> planned 0 w \<and> planned 1 w \<and> planned 2 w \<longrightarrow>
        (\<exists>w' b. MXUser_CreateBarrier ra nm rk cnt w = Inr (Some (nextAddr w), w') \<and>
           barrierMem w' (nextAddr w) = Some b \<and> nextAddr w \<in> mallocd w' \<and>
           signature (header b) = MXUSER_BARRIER_SIGNATURE \<and> rank (header b) = rk \<and>
           configCount b = cnt \<and> \<not> emptying b \<and> curContext b = 0 \<and>
           count (contexts b 0) = 0 \<and> count (contexts b 1) = 0 \<and>
           set_option (name (header b)) \<subseteq> mallocd w' - mallocd w \<and>
           set_option (lock b) \<subseteq> exclLocks w' - exclLocks w \<and>
           set_option (condVar (contexts b 0)) \<subseteq> dom (condVars w') - dom (condVars w) \<and>
           set_option (condVar (contexts b 1)) \<subseteq> dom (condVars w') - dom (condVars w) \<and>
           lock b \<noteq> None \<and> condVar (contexts b 0) \<noteq> None \<and> condVar (contexts b 1) \<noteq> None \<and>
           condVar (contexts b 0) \<noteq> condVar (contexts b 1))) \<and>
     (cnt \<noteq> 0 \<and> \<not> (planned 0 w \<and> planned 1 w \<and> planned 2 w) \<longrightarrow>
        (\<exists>w'. MXUser_CreateBarrier ra nm rk cnt w = Inr (None, w') \<and>
           mallocd w' = mallocd w \<and> exclLocks w' = exclLocks w \<and> condVars w' = condVars w \<and>
           atomicPtrs w' = atomicPtrs w))"
proof (intro conjI impI)
  assume "cnt = 0"
  then show "MXUser_CreateBarrier ra nm rk cnt w = Inl (AssertFailure, w)"
    by (simp add: create_zero)
next
  assume a: "cnt \<noteq> 0 \<and> planned 0 w \<and> planned 1 w \<and> planned 2 w"
  from a create_succeeds[of cnt w ra nm rk] obtain w' where
    w': "MXUser_CreateBarrier ra nm rk cnt w = Inr (Some (nextAddr w), w')"
      "mallocd w' = insert (nextAddr w + 1) (insert (nextAddr w) (mallocd w))"
      "barrierMem w' = (barrierMem w)(nextAddr w \<mapsto> new_barrier (nextAddr w) rk cnt)"
      "exclLocks w' = insert (nextAddr w + 2) (exclLocks w)"
      "condVars w' = (condVars w)(nextAddr w + 3 \<mapsto> Some (nextAddr w + 2),
                                     nextAddr w + 4 \<mapsto> Some (nextAddr w + 2))"
    by blast
  from assms have fresh: "nextAddr w + 1 \<notin> mallocd w" "nextAddr w + 2 \<notin> exclLocks w"
      "nextAddr w + 3 \<notin> dom (condVars w)" "nextAddr w + 4 \<notin> dom (condVars w)"
    by (auto simp: wf_world_def)
  show "\<exists>w' b. MXUser_CreateBarrier ra nm rk cnt w = Inr (Some (nextAddr w), w') \<and>
           barrierMem w' (nextAddr w) = Some b \<and> nextAddr w \<in> mallocd w' \<and>
           signature (header b) = MXUSER_BARRIER_SIGNATURE \<and> rank (header b) = rk \<and>
           configCount b = cnt \<and> \<not> emptying b \<and> curContext b = 0 \<and>
           count (contexts b 0) = 0 \<and> count (contexts b 1) = 0 \<and>
           set_option (name (header b)) \<subseteq> mallocd w' - mallocd w \<and>
           set_option (lock b) \<subseteq> exclLocks w' - exclLocks w \<and>
           set_option (condVar (contexts b 0)) \<subseteq> dom (condVars w') - dom (condVars w) \<and>
           set_option (condVar (contexts b 1)) \<subseteq> dom (condVars w') - dom (condVars w) \<and>
           lock b \<noteq> None \<and> condVar (contexts b 0) \<noteq> None \<and> condVar (contexts b 1) \<noteq> None \<and>
           condVar (contexts b 0) \<noteq> condVar (contexts b 1)"
    apply (rule exI[of _ w'], rule exI[of _ "new_barrier (nextAddr w) rk cnt"])
    using w' fresh by (simp add: new_barrier_def contexts_def)
next
  assume "cnt \<noteq> 0 \<and> \<not> (planned 0 w \<and> planned 1 w \<and> planned 2 w)"
  with assms create_fails[of cnt w ra nm rk]
  show "\<exists>w'. MXUser_CreateBarrier ra nm rk cnt w = Inr (None, w') \<and>
           mallocd w' = mallocd w \<and> exclLocks w' = exclLocks w \<and> condVars w' = condVars w \<and>
           atomicPtrs w' = atomicPtrs w"
    by blast
qed

theorem create_outcomes_witness:
  "wf_world (empty_world 0 []) \<and>
   MXUser_CreateBarrier ''0x1'' None 7 0 (empty_world 0 []) = Inl (AssertFailure, empty_world 0 []) \<and>
   (\<exists>w'. MXUser_CreateBarrier ''0x1'' None 7 2 (empty_world 0 [True, False, True]) = Inr (None, w') \<and>
      mallocd w' = {} \<and> exclLocks w' = {} \<and> condVars w' = Map.empty) \<and>
   (\<exists>w'. MXUser_CreateBarrier ''0x1'' None 7 2 (empty_world 0 []) = Inr (Some 0, w') \<and>
      barrierMem w' 0 = Some (new_barrier 0 7 2) \<and> mallocd w' = {0, 1})"
  using create_outcomes[of "empty_world 0 []" 0 "''0x1''" None 7]
    create_outcomes[of "empty_world 0 [True, False, True]" 2 "''0x1''" None 7]
    create_outcomes[of "empty_world 0 []" 2 "''0x1''" None 7]
  by (simp add: wf_world_def empty_world_def planned_def create_defs new_barrier_def zero_barrier_def contexts_update_def insert_commute)

subsection \<open>The singleton, one caller\<close>

lemma create_atomicPtrs:
  "MXUser_CreateBarrier ra nm rk cnt w = Inr (r, w') \<Longrightarrow> atomicPtrs w' = atomicPtrs w"
  by (cases nm; cases "planned 0 w"; cases "planned 1 w"; cases "planned 2 w")
     (auto simp: create_defs planned_def eval_nat_numeral split: if_splits)

lemma singleton_fast:
  "atomicPtrs w var = Some p \<Longrightarrow>
   MXUser_CreateSingletonBarrier ra (Some var) nm rk cnt w = Inr (Some p, w)"
  by (simp add: MXUser_CreateSingletonBarrier_def Atomic_ReadPtr_def)

lemma singleton_installs:
  "atomicPtrs w var = None \<Longrightarrow> MXUser_CreateBarrier ra nm rk cnt w = Inr (r, w1) \<Longrightarrow>
   MXUser_CreateSingletonBarrier ra (Some var) nm rk cnt w =
     Inr (r, w1\<lparr>atomicPtrs := (atomicPtrs w1)(var := r)\<rparr>)"
  using create_atomicPtrs[of ra nm rk cnt w r w1]
  by (simp add: MXUser_CreateSingletonBarrier_def Atomic_ReadPtr_def Atomic_ReadIfEqualWritePtr_def)

text \<open>
  C10. If the cell is null and \<^verbatim>\<open>MXUser_CreateBarrier\<close> returns \<^verbatim>\<open>NULL\<close>, then
  \<^verbatim>\<open>MXUser_CreateSingletonBarrier\<close> (run without interference) returns \<^verbatim>\<open>NULL\<close> as
  well and the cell is still null.
\<close>

theorem singleton_can_fail:
  assumes "atomicPtrs w var = None" and "MXUser_CreateBarrier ra nm rk cnt w = Inr (None, w1)"
  shows "MXUser_CreateSingletonBarrier ra (Some var) nm rk cnt w = Inr (None, w1) \<and>
     atomicPtrs w1 var = None"
proof -
  have "atomicPtrs w1 = atomicPtrs w" using assms(2) by (rule create_atomicPtrs)
  with assms(1) have cell: "atomicPtrs w1 var = None" by simp
  then have "(atomicPtrs w1)(var := None) = atomicPtrs w1" by (simp add: fun_upd_idem)
  then have "w1\<lparr>atomicPtrs := (atomicPtrs w1)(var := None)\<rparr> = w1" by simp
  with singleton_installs[OF assms] cell show ?thesis by simp
qed

theorem singleton_can_fail_witness:
  "atomicPtrs (empty_world 0 [False]) 9 = None \<and>
   MXUser_CreateBarrier ''0x1'' None 7 2 (empty_world 0 [False]) =
     Inr (None, (empty_world 2 [])\<lparr>barrierMem := [0 \<mapsto> zero_barrier], strMem := [1 \<mapsto> ''Barrier-0x1'']\<rparr>) \<and>
   MXUser_CreateSingletonBarrier ''0x1'' (Some 9) None 7 2 (empty_world 0 [False]) =
     Inr (None, (empty_world 2 [])\<lparr>barrierMem := [0 \<mapsto> zero_barrier], strMem := [1 \<mapsto> ''Barrier-0x1'']\<rparr>)"
proof -
  have c: "MXUser_CreateBarrier ''0x1'' None 7 2 (empty_world 0 [False]) =
     Inr (None, (empty_world 2 [])\<lparr>barrierMem := [0 \<mapsto> zero_barrier], strMem := [1 \<mapsto> ''Barrier-0x1'']\<rparr>)"
    by (simp add: empty_world_def planned_def create_defs eval_nat_numeral zero_barrier_def)
  have a: "atomicPtrs (empty_world 0 [False]) 9 = None" by (simp add: empty_world_def)
  from singleton_can_fail[OF a c] a c show ?thesis by simp
qed

subsection \<open>The singleton, racing callers\<close>

lemma apart_sym: "apart c c' \<Longrightarrow> apart c' c"
  by (auto simp: apart_def)

lemma apart_irrefl [simp]: "\<not> apart c c"
  by (simp add: apart_def)

lemma in_flight_nth: "c \<in> in_flight cs \<longleftrightarrow> (\<exists>i < length cs. cs ! i = Some c)"
  by (auto simp: in_flight_def in_set_conv_nth)

lemma pairwise_apart_drop:
  assumes "pairwise_apart cs"
  shows "pairwise_apart (cs[i := None])"
  unfolding pairwise_apart_def
proof (intro allI impI)
  fix k j c c'
  assume k: "k < length (cs[i := None])" and j: "j < length (cs[i := None])"
    and h: "k \<noteq> j \<and> cs[i := None] ! k = Some c \<and> cs[i := None] ! j = Some c'"
  from h k j have "k \<noteq> i" "j \<noteq> i" by (auto simp: nth_list_update split: if_splits)
  with h have "cs ! k = Some c" "cs ! j = Some c'" by auto
  with assms h k j show "apart c c'" unfolding pairwise_apart_def by auto
qed

lemma pairwise_apart_new:
  assumes "pairwise_apart cs" and "\<forall>c \<in> in_flight cs. apart a c"
  shows "pairwise_apart (cs[i := Some a])"
  unfolding pairwise_apart_def
proof (intro allI impI)
  fix k j c c'
  assume k: "k < length (cs[i := Some a])" and j: "j < length (cs[i := Some a])"
    and h: "k \<noteq> j \<and> cs[i := Some a] ! k = Some c \<and> cs[i := Some a] ! j = Some c'"
  show "apart c c'"
  proof (cases "k = i")
    case True
    with h k j have "c = a" "cs ! j = Some c'" by (auto simp: nth_list_update)
    with assms(2) j show ?thesis by (auto simp: in_flight_nth)
  next
    case ki: False
    show ?thesis
    proof (cases "j = i")
      case True
      with h k j ki have "c' = a" "cs ! k = Some c" by (auto simp: nth_list_update)
      with assms(2) k show ?thesis by (auto simp: in_flight_nth intro: apart_sym)
    next
      case False
      with ki h k j assms(1) show ?thesis by (auto simp: pairwise_apart_def nth_list_update)
    qed
  qed
qed

lemma in_flight_drop:
  assumes "pairwise_apart cs" and "i < length cs"
  shows "in_flight (cs[i := None]) = in_flight cs - set_option (cs ! i)"
proof (rule set_eqI)
  fix c
  show "c \<in> in_flight (cs[i := None]) \<longleftrightarrow> c \<in> in_flight cs - set_option (cs ! i)"
  proof
    assume "c \<in> in_flight (cs[i := None])"
    then obtain j where j: "j < length cs" "cs[i := None] ! j = Some c" by (auto simp: in_flight_nth)
    then have ji: "j \<noteq> i" "cs ! j = Some c" using assms(2) by (auto simp: nth_list_update split: if_splits)
    have "cs ! i \<noteq> Some c"
    proof
      assume "cs ! i = Some c"
      with assms ji j(1) have "apart c c" unfolding pairwise_apart_def by blast
      then show False by simp
    qed
    with ji j(1) show "c \<in> in_flight cs - set_option (cs ! i)" by (auto simp: in_flight_nth)
  next
    assume "c \<in> in_flight cs - set_option (cs ! i)"
    then obtain j where j: "j < length cs" "cs ! j = Some c" "cs ! i \<noteq> Some c"
      by (auto simp: in_flight_nth)
    then have "j \<noteq> i" by auto
    with j show "c \<in> in_flight (cs[i := None])" by (auto simp: in_flight_nth nth_list_update)
  qed
qed

lemma in_flight_new:
  assumes "cs ! i = None" and "i < length cs"
  shows "in_flight (cs[i := Some a]) = insert a (in_flight cs)"
proof (rule set_eqI)
  fix c
  show "c \<in> in_flight (cs[i := Some a]) \<longleftrightarrow> c \<in> insert a (in_flight cs)"
  proof
    assume "c \<in> in_flight (cs[i := Some a])"
    then obtain j where j: "j < length cs" "cs[i := Some a] ! j = Some c" by (auto simp: in_flight_nth)
    then show "c \<in> insert a (in_flight cs)"
      by (cases "j = i") (auto simp: in_flight_nth nth_list_update)
  next
    assume "c \<in> insert a (in_flight cs)"
    then consider "c = a" | "c \<in> in_flight cs" by auto
    then show "c \<in> in_flight (cs[i := Some a])"
    proof cases
      case 1
      with assms(2) show ?thesis by (auto simp: in_flight_nth nth_list_update)
    next
      case 2
      then obtain j where j: "j < length cs" "cs ! j = Some c" by (auto simp: in_flight_nth)
      with assms(1) have "j \<noteq> i" by auto
      with j show ?thesis by (auto simp: in_flight_nth nth_list_update)
    qed
  qed
qed

lemma map_cand_update: "map cand (rs[i := t]) = (map cand rs)[i := cand t]"
  by (simp add: map_update)

lemma accounted_add:
  assumes "accounted w0 w own"
    and "mallocd w' = insert (a + 1) (insert a (mallocd w))"
    and "exclLocks w' = insert (a + 2) (exclLocks w)"
    and "dom (condVars w') = insert (a + 3) (insert (a + 4) (dom (condVars w)))"
  shows "accounted w0 w' (insert a own)"
  using assms unfolding accounted_def by auto

lemma image_add_remove: "(\<lambda>c::nat. c + k) ` (own - {c}) = (\<lambda>c. c + k) ` own - {c + k}"
  by auto

lemma accounted_remove:
  assumes "accounted w0 w own"
    and "\<forall>c' \<in> own - {c}. apart c c'"
    and "\<forall>x \<in> mallocd w0 \<union> exclLocks w0 \<union> dom (condVars w0). x < c"
    and "mallocd w' = mallocd w - {c + 1} - {c}"
    and "exclLocks w' = exclLocks w - {c + 2}"
    and "dom (condVars w') = dom (condVars w) - {c + 3, c + 4}"
  shows "accounted w0 w' (own - {c})"
proof -
  have far: "c' + k \<noteq> c + j" if "c' \<in> own" "c' \<noteq> c" "k < 5" "j < 5" for c' k j
  proof -
    from that assms(2) have "apart c c'" by auto
    with that show ?thesis unfolding apart_def by arith
  qed
  have img: "c + j \<notin> (\<lambda>c. c + k) ` own" if "k < 5" "j < 5" "k \<noteq> j" for k j
  proof
    assume "c + j \<in> (\<lambda>c. c + k) ` own"
    then obtain c' where c': "c' \<in> own" "c + j = c' + k" by auto
    with that have "c' \<noteq> c" by auto
    from far[OF c'(1) this that(1,2)] c'(2) show False by simp
  qed
  have n1: "c + 1 \<notin> own" using img[of 0 1] by simp
  have n2: "c \<notin> (\<lambda>c. c + 1) ` own" using img[of 1 0] by simp
  have n3: "c + 4 \<notin> (\<lambda>c. c + 3) ` own" using img[of 3 4] by simp
  have n4: "c + 3 \<notin> (\<lambda>c. c + 4) ` own" using img[of 4 3] by simp
  have base: "c + j \<notin> mallocd w0 \<and> c + j \<notin> exclLocks w0 \<and> c + j \<notin> dom (condVars w0)" for j
    using assms(3) by fastforce
  have b0: "c \<notin> mallocd w0" using base[of 0] by simp
  note b = b0 base[of 1] base[of 2] base[of 3] base[of 4]
  have m: "mallocd w' = mallocd w0 \<union> (own - {c}) \<union> ((\<lambda>c. c + 1) ` own - {c + 1})"
    using assms(1,4) n1 n2 b unfolding accounted_def by auto
  have l: "exclLocks w' = exclLocks w0 \<union> ((\<lambda>c. c + 2) ` own - {c + 2})"
    using assms(1,5) b unfolding accounted_def by auto
  have v: "dom (condVars w') =
      dom (condVars w0) \<union> ((\<lambda>c. c + 3) ` own - {c + 3}) \<union> ((\<lambda>c. c + 4) ` own - {c + 4})"
    using assms(1,6) n3 n4 b unfolding accounted_def by auto
  from m l v show ?thesis unfolding accounted_def image_add_remove by simp
qed

lemma inv_parts_fail:
  assumes inv: "inv_parts args w0 w cs"
    and same: "mallocd w' = mallocd w" "exclLocks w' = exclLocks w" "condVars w' = condVars w"
      "atomicPtrs w' = atomicPtrs w"
    and nxt: "nextAddr w \<le> nextAddr w'" and wf: "wf_world w'"
    and mem: "\<forall>a < nextAddr w. barrierMem w' a = barrierMem w a"
  shows "inv_parts args w0 w' cs"
proof -
  have g: "good args w0 w' c" if "good args w0 w c" for c
    using that nxt mem unfolding good_def by auto
  have a: "accounted w0 w' own" if "accounted w0 w own" for own
    using that same unfolding accounted_def by simp
  from inv g a wf nxt same(4) show ?thesis unfolding inv_parts_def by auto
qed

lemma inv_parts_new:
  assumes inv: "inv_parts args w0 w cs"
    and i: "i < length cs" "cs ! i = None"
    and w': "nextAddr w' = nextAddr w + 5"
      "mallocd w' = insert (nextAddr w + 1) (insert (nextAddr w) (mallocd w))"
      "barrierMem w' = (barrierMem w)(nextAddr w \<mapsto> new_barrier (nextAddr w) (arg_rank args) (arg_count args))"
      "strMem w' = (strMem w)(nextAddr w + 1 \<mapsto> str)"
      "exclLocks w' = insert (nextAddr w + 2) (exclLocks w)"
      "condVars w' = (condVars w)(nextAddr w + 3 \<mapsto> l3, nextAddr w + 4 \<mapsto> l4)"
      "atomicPtrs w' = atomicPtrs w"
  shows "inv_parts args w0 w' (cs[i := Some (nextAddr w)])"
proof -
  let ?a = "nextAddr w"
  let ?cell = "atomicPtrs w (arg_var args)"
  from inv have wf: "wf_world w" and n0: "nextAddr w0 \<le> ?a" and pa: "pairwise_apart cs"
    and ap: "\<forall>c \<in> in_flight cs. \<forall>p \<in> set_option ?cell. apart c p"
    and gd: "\<forall>c \<in> set_option ?cell \<union> in_flight cs. good args w0 w c"
    and ac: "accounted w0 w (set_option ?cell \<union> in_flight cs)"
    unfolding inv_parts_def by auto
  have below: "c + 5 \<le> ?a" if "c \<in> set_option ?cell \<union> in_flight cs" for c
    using gd that unfolding good_def by auto
  have wf': "wf_world w'"
    using wf w' unfolding wf_world_def by (auto simp: less_Suc_eq dom_def split: if_splits) 
  have fl: "in_flight (cs[i := Some ?a]) = insert ?a (in_flight cs)"
    using i by (simp add: in_flight_new)
  have pa': "pairwise_apart (cs[i := Some ?a])"
  proof (rule pairwise_apart_new[OF pa], rule ballI)
    fix c assume "c \<in> in_flight cs"
    then have "c + 5 \<le> ?a" using below by simp
    then show "apart ?a c" by (simp add: apart_def)
  qed
  have ap': "\<forall>c \<in> in_flight (cs[i := Some ?a]). \<forall>p \<in> set_option (atomicPtrs w' (arg_var args)). apart c p"
  proof (intro ballI)
    fix c p assume c: "c \<in> in_flight (cs[i := Some ?a])" and p: "p \<in> set_option (atomicPtrs w' (arg_var args))"
    from p w'(7) have p': "p \<in> set_option ?cell" by simp
    show "apart c p"
    proof (cases "c = ?a")
      case True
      from below[of p] p' have "p + 5 \<le> ?a" by simp
      with True show ?thesis by (simp add: apart_def)
    next
      case False
      with c fl have "c \<in> in_flight cs" by simp
      with ap p' show ?thesis by blast
    qed
  qed
  have gd': "\<forall>c \<in> set_option (atomicPtrs w' (arg_var args)) \<union> in_flight (cs[i := Some ?a]). good args w0 w' c"
  proof
    fix c assume c: "c \<in> set_option (atomicPtrs w' (arg_var args)) \<union> in_flight (cs[i := Some ?a])"
    show "good args w0 w' c"
    proof (cases "c = ?a")
      case True
      with n0 w' show ?thesis by (simp add: good_def)
    next
      case False
      with c fl w'(7) have old: "c \<in> set_option ?cell \<union> in_flight cs" by auto
      with gd have "good args w0 w c" by blast
      with False w' show ?thesis by (simp add: good_def)
    qed
  qed
  have "accounted w0 w' (insert ?a (set_option ?cell \<union> in_flight cs))"
    using ac w'(2,5,6) by (intro accounted_add[of w0 w]) auto
  then have ac': "accounted w0 w' (set_option (atomicPtrs w' (arg_var args)) \<union> in_flight (cs[i := Some ?a]))"
    using fl w'(7) by simp
  from wf' n0 w'(1) pa' ap' gd' ac' show ?thesis unfolding inv_parts_def by simp
qed

lemma inv_parts_win:
  assumes inv: "inv_parts args w0 w cs"
    and i: "i < length cs"
    and cell: "atomicPtrs w (arg_var args) = None"
    and w': "nextAddr w' = nextAddr w" "mallocd w' = mallocd w" "barrierMem w' = barrierMem w"
      "strMem w' = strMem w" "exclLocks w' = exclLocks w" "condVars w' = condVars w"
      "atomicPtrs w' (arg_var args) = cs ! i"
  shows "inv_parts args w0 w' (cs[i := None])"
proof -
  from inv cell have wf: "wf_world w" and n0: "nextAddr w0 \<le> nextAddr w" and pa: "pairwise_apart cs"
    and gd: "\<forall>c \<in> in_flight cs. good args w0 w c"
    and ac: "accounted w0 w (in_flight cs)"
    unfolding inv_parts_def by auto
  have wf': "wf_world w'" using wf w' unfolding wf_world_def by simp
  have fl: "in_flight (cs[i := None]) = in_flight cs - set_option (cs ! i)"
    using pa i by (rule in_flight_drop)
  have sub: "set_option (cs ! i) \<subseteq> in_flight cs"
    using i by (auto simp: in_flight_nth)
  then have own: "set_option (atomicPtrs w' (arg_var args)) \<union> in_flight (cs[i := None]) = in_flight cs"
    using fl w'(7) by auto
  have ap': "\<forall>c \<in> in_flight (cs[i := None]). \<forall>p \<in> set_option (atomicPtrs w' (arg_var args)). apart c p"
  proof (intro ballI)
    fix c p assume c: "c \<in> in_flight (cs[i := None])" and p: "p \<in> set_option (atomicPtrs w' (arg_var args))"
    from p w'(7) have pi: "cs ! i = Some p" by simp
    from c obtain j where j: "j < length cs" "cs[i := None] ! j = Some c" by (auto simp: in_flight_nth)
    then have "j \<noteq> i" "cs ! j = Some c" using i by (auto simp: nth_list_update split: if_splits)
    with pa i j(1) pi show "apart c p" unfolding pairwise_apart_def by blast
  qed
  have gd': "\<forall>c \<in> in_flight cs. good args w0 w' c"
    using gd w' unfolding good_def by simp
  have ac': "accounted w0 w' (in_flight cs)"
    using ac w' unfolding accounted_def by simp
  from wf' n0 w'(1) pairwise_apart_drop[OF pa] ap' gd' ac' own show ?thesis
    unfolding inv_parts_def by simp
qed

lemma inv_parts_destroy:
  assumes inv: "inv_parts args w0 w cs" and wf0: "wf_world w0"
    and i: "i < length cs" "cs ! i = Some c"
    and w': "nextAddr w' = nextAddr w" "mallocd w' = mallocd w - {c + 1} - {c}"
      "barrierMem w' = (barrierMem w)(c \<mapsto> b')"
      "strMem w' = strMem w" "exclLocks w' = exclLocks w - {c + 2}"
      "condVars w' = (\<lambda>cv. if cv = c + 3 \<or> cv = c + 4 then None else condVars w cv)"
      "atomicPtrs w' = atomicPtrs w"
  shows "inv_parts args w0 w' (cs[i := None])"
proof -
  let ?cell = "atomicPtrs w (arg_var args)"
  from inv have wf: "wf_world w" and n0: "nextAddr w0 \<le> nextAddr w" and pa: "pairwise_apart cs"
    and ap: "\<forall>c \<in> in_flight cs. \<forall>p \<in> set_option ?cell. apart c p"
    and gd: "\<forall>c \<in> set_option ?cell \<union> in_flight cs. good args w0 w c"
    and ac: "accounted w0 w (set_option ?cell \<union> in_flight cs)"
    unfolding inv_parts_def by auto
  from i have cin: "c \<in> in_flight cs" by (auto simp: in_flight_nth)
  with gd have gc: "good args w0 w c" by blast
  have cdom: "c \<in> dom (barrierMem w)" using gc unfolding good_def by auto
  have wf': "wf_world w'"
    using wf w' cdom unfolding wf_world_def by (auto simp: dom_def split: if_splits)
  have fl: "in_flight (cs[i := None]) = in_flight cs - {c}"
    using in_flight_drop[OF pa i(1)] i(2) by simp
  have notcell: "c \<notin> set_option ?cell"
  proof
    assume "c \<in> set_option ?cell"
    with ap cin have "apart c c" by blast
    then show False by simp
  qed
  then have own: "set_option (atomicPtrs w' (arg_var args)) \<union> in_flight (cs[i := None]) =
      (set_option ?cell \<union> in_flight cs) - {c}"
    using fl w'(7) by auto
  have others: "\<forall>c' \<in> (set_option ?cell \<union> in_flight cs) - {c}. apart c c'"
  proof
    fix c' assume c': "c' \<in> (set_option ?cell \<union> in_flight cs) - {c}"
    show "apart c c'"
    proof (cases "c' \<in> set_option ?cell")
      case True
      with ap cin show ?thesis by blast
    next
      case False
      with c' have "c' \<in> in_flight cs" "c' \<noteq> c" by auto
      then obtain j where j: "j < length cs" "cs ! j = Some c'" by (auto simp: in_flight_nth)
      with \<open>c' \<noteq> c\<close> i have "i \<noteq> j" by auto
      with pa i j show ?thesis unfolding pairwise_apart_def by blast
    qed
  qed
  have base: "\<forall>x \<in> mallocd w0 \<union> exclLocks w0 \<union> dom (condVars w0). x < c"
  proof
    fix x assume "x \<in> mallocd w0 \<union> exclLocks w0 \<union> dom (condVars w0)"
    with wf0 have "x < nextAddr w0" unfolding wf_world_def by auto
    with gc show "x < c" unfolding good_def by simp
  qed
  have dcv: "dom (condVars w') = dom (condVars w) - {c + 3, c + 4}"
    using w'(6) by (auto simp: dom_def split: if_splits)
  have ac': "accounted w0 w' ((set_option ?cell \<union> in_flight cs) - {c})"
    using ac others base w'(2,5) dcv by (rule accounted_remove)
  have ap': "\<forall>x \<in> in_flight (cs[i := None]). \<forall>p \<in> set_option (atomicPtrs w' (arg_var args)). apart x p"
    using ap fl w'(7) by auto
  have gd': "\<forall>x \<in> (set_option ?cell \<union> in_flight cs) - {c}. good args w0 w' x"
    using gd w' unfolding good_def by auto
  from wf' n0 w'(1) pairwise_apart_drop[OF pa] ap' gd' ac' own show ?thesis
    unfolding inv_parts_def by simp
qed

lemma destroy_candidate:
  assumes "barrierMem w c = Some (new_barrier c rk cnt)"
  shows "\<exists>w' b'. MXUser_DestroyBarrier (Some c) w = Inr w' \<and>
     nextAddr w' = nextAddr w \<and> mallocd w' = mallocd w - {c + 1} - {c} \<and>
     barrierMem w' = (barrierMem w)(c \<mapsto> b') \<and> signature (header b') = 0 \<and>
     strMem w' = strMem w \<and> exclLocks w' = exclLocks w - {c + 2} \<and>
     condVars w' = (\<lambda>cv. if cv = c + 3 \<or> cv = c + 4 then None else condVars w cv) \<and>
     atomicPtrs w' = atomicPtrs w"
proof -
  let ?b = "new_barrier c rk cnt"
  have b: "signature (header ?b) = MXUSER_BARRIER_SIGNATURE" "count (contexts ?b 0) = 0"
    "count (contexts ?b 1) = 0"
    by (simp_all add: new_barrier_def contexts_def)
  have f: "condVar (contexts ?b 0) = Some (c + 3)" "condVar (contexts ?b 1) = Some (c + 4)"
    "lock ?b = Some (c + 2)" "name (header ?b) = Some (c + 1)"
    by (simp_all add: new_barrier_def contexts_def)
  from destroy_unused[OF assms b] obtain w' where
    w': "MXUser_DestroyBarrier (Some c) w = Inr w' \<and>
     condVars w' = (\<lambda>cv. if Some cv = condVar (contexts ?b 0) \<or> Some cv = condVar (contexts ?b 1)
                          then None else condVars w cv) \<and>
     exclLocks w' = exclLocks w - set_option (lock ?b) \<and>
     mallocd w' = mallocd w - set_option (name (header ?b)) - {c} \<and>
     barrierMem w' = (barrierMem w)(c \<mapsto> ?b\<lparr>header := (header ?b)\<lparr>signature := 0, name := None\<rparr>\<rparr>) \<and>
     strMem w' = strMem w \<and> atomicPtrs w' = atomicPtrs w \<and>
     nextAddr w' = nextAddr w \<and> allocPlan w' = allocPlan w"
    by (elim exE)
  then have "MXUser_DestroyBarrier (Some c) w = Inr w' \<and>
     nextAddr w' = nextAddr w \<and> mallocd w' = mallocd w - {c + 1} - {c} \<and>
     barrierMem w' = (barrierMem w)(c \<mapsto> ?b\<lparr>header := (header ?b)\<lparr>signature := 0, name := None\<rparr>\<rparr>) \<and>
     signature (header (?b\<lparr>header := (header ?b)\<lparr>signature := 0, name := None\<rparr>\<rparr>)) = 0 \<and>
     strMem w' = strMem w \<and> exclLocks w' = exclLocks w - {c + 2} \<and>
     condVars w' = (\<lambda>cv. if cv = c + 3 \<or> cv = c + 4 then None else condVars w cv) \<and>
     atomicPtrs w' = atomicPtrs w"
    unfolding f by simp
  then show ?thesis by (intro exI)
qed

lemma tfact_None: "tfact None t \<Longrightarrow> tfact cell t"
proof (cases t)
  case (Done r)
  assume "tfact None t"
  with Done show ?thesis by (cases r) auto
qed auto

lemma tfact_Done_cell: "tfact cell (Done cell)"
  by (cases cell) auto

lemma tfacts_update:
  assumes "\<forall>t \<in> set rs. tfact cell t" and "tfact cell t'"
  shows "\<forall>t \<in> set (rs[i := t']). tfact cell t"
  using assms set_update_subset_insert[of rs i t'] by auto

lemma map_cand_same:
  assumes "i < length rs" and "cand t' = cand (rs ! i)"
  shows "map cand (rs[i := t']) = map cand rs"
  using assms by (simp add: map_update list_update_same_conv)

lemma race_inv_same:
  assumes "race_inv args w0 s" and "i < length (racers s)"
    and "cand t' = cand (racers s ! i)" and "tfact (atomicPtrs (world_of s) (arg_var args)) t'"
  shows "race_inv args w0 \<lparr>world_of = world_of s, racers = (racers s)[i := t']\<rparr>"
proof -
  from assms(1) have ip: "inv_parts args w0 (world_of s) (map cand (racers s))"
    and tf: "\<forall>t \<in> set (racers s). tfact (atomicPtrs (world_of s) (arg_var args)) t"
    unfolding race_inv_def by simp_all
  have "map cand ((racers s)[i := t']) = map cand (racers s)"
    using assms(2,3) by (rule map_cand_same)
  moreover have "\<forall>t \<in> set ((racers s)[i := t']). tfact (atomicPtrs (world_of s) (arg_var args)) t"
    using tf assms(4) by (rule tfacts_update)
  ultimately show ?thesis using ip unfolding race_inv_def by simp
qed

lemma race_step_inv:
  assumes inv: "race_inv args w0 s" and wf0: "wf_world w0"
  shows "race_inv args w0 (race_step args i s)"
proof (cases "i < length (racers s)")
  case False
  with inv show ?thesis by (simp add: race_step_def)
next
  case i: True
  let ?w = "world_of s" and ?rs = "racers s"
  let ?cell = "atomicPtrs ?w (arg_var args)"
  let ?cs = "map cand ?rs"
  from inv have ip: "inv_parts args w0 ?w ?cs" and tf: "\<forall>t \<in> set ?rs. tfact ?cell t"
    unfolding race_inv_def by auto
  from tf i have tfi: "tfact ?cell (?rs ! i)" by simp
  from ip have wf: "wf_world ?w" unfolding inv_parts_def by simp
  from i have ics: "i < length ?cs" by simp
  show ?thesis
  proof (cases "?rs ! i")
    case At_Read
    then have "race_step args i s =
        \<lparr>world_of = ?w, racers = ?rs[i := if ?cell = None then At_Create else Done ?cell]\<rparr>"
      using i by (simp add: race_step_def racer_step_def Atomic_ReadPtr_def Let_def)
    moreover have "race_inv args w0 \<dots>"
      using inv i At_Read by (intro race_inv_same) (auto simp: tfact_Done_cell)
    ultimately show ?thesis by simp
  next
    case At_Create
    then have ci: "?cs ! i = None" using i by simp
    show ?thesis
    proof (cases "arg_count args = 0")
      case True
      then have "race_step args i s = \<lparr>world_of = ?w, racers = ?rs[i := Aborted AssertFailure]\<rparr>"
        using i At_Create by (simp add: race_step_def racer_step_def create_zero)
      moreover have "race_inv args w0 \<dots>"
        using inv i At_Create by (intro race_inv_same) auto
      ultimately show ?thesis by simp
    next
      case cnt: False
      show ?thesis
      proof (cases "planned 0 ?w \<and> planned 1 ?w \<and> planned 2 ?w")
        case True
        then have "planned 0 ?w" "planned 1 ?w" "planned 2 ?w" by blast+
        from create_succeeds[OF cnt this, of "arg_ra args" "arg_name args" "arg_rank args"]
        obtain w' where
          "MXUser_CreateBarrier (arg_ra args) (arg_name args) (arg_rank args) (arg_count args) ?w =
                 Inr (Some (nextAddr ?w), w') \<and>
            nextAddr w' = nextAddr ?w + 5 \<and> allocPlan w' = drop 3 (allocPlan ?w) \<and>
            mallocd w' = insert (nextAddr ?w + 1) (insert (nextAddr ?w) (mallocd ?w)) \<and>
            barrierMem w' = (barrierMem ?w)(nextAddr ?w \<mapsto> new_barrier (nextAddr ?w) (arg_rank args) (arg_count args)) \<and>
            strMem w' = (strMem ?w)(nextAddr ?w + 1 \<mapsto> (case arg_name args of None \<Rightarrow> ''Barrier-'' @ arg_ra args | Some str \<Rightarrow> str)) \<and>
            exclLocks w' = insert (nextAddr ?w + 2) (exclLocks ?w) \<and>
            condVars w' = (condVars ?w)(nextAddr ?w + 3 \<mapsto> Some (nextAddr ?w + 2),
                                     nextAddr ?w + 4 \<mapsto> Some (nextAddr ?w + 2)) \<and>
            atomicPtrs w' = atomicPtrs ?w"
          by (elim exE)
        then have
          w': "MXUser_CreateBarrier (arg_ra args) (arg_name args) (arg_rank args) (arg_count args) ?w =
                 Inr (Some (nextAddr ?w), w')"
            "nextAddr w' = nextAddr ?w + 5"
            "mallocd w' = insert (nextAddr ?w + 1) (insert (nextAddr ?w) (mallocd ?w))"
            "barrierMem w' = (barrierMem ?w)(nextAddr ?w \<mapsto> new_barrier (nextAddr ?w) (arg_rank args) (arg_count args))"
            "strMem w' = (strMem ?w)(nextAddr ?w + 1 \<mapsto> (case arg_name args of None \<Rightarrow> ''Barrier-'' @ arg_ra args | Some str \<Rightarrow> str))"
            "exclLocks w' = insert (nextAddr ?w + 2) (exclLocks ?w)"
            "condVars w' = (condVars ?w)(nextAddr ?w + 3 \<mapsto> Some (nextAddr ?w + 2),
                                     nextAddr ?w + 4 \<mapsto> Some (nextAddr ?w + 2))"
            "atomicPtrs w' = atomicPtrs ?w"
          by blast+
        have st: "race_step args i s = \<lparr>world_of = w', racers = ?rs[i := At_CAS (Some (nextAddr ?w))]\<rparr>"
          using i At_Create w'(1) by (simp add: race_step_def racer_step_def)
        have "inv_parts args w0 w' (?cs[i := Some (nextAddr ?w)])"
          using ip ics ci w'(2-8) by (rule inv_parts_new)
        moreover have "\<forall>t \<in> set (?rs[i := At_CAS (Some (nextAddr ?w))]). tfact (atomicPtrs w' (arg_var args)) t"
          using tf w'(8) by (intro tfacts_update) auto
        ultimately show ?thesis unfolding st race_inv_def by (simp add: map_update)
      next
        case False
        from create_fails[OF cnt this wf, of "arg_ra args" "arg_name args" "arg_rank args"]
        obtain w' where
          "MXUser_CreateBarrier (arg_ra args) (arg_name args) (arg_rank args) (arg_count args) ?w =
                 Inr (None, w') \<and>
            mallocd w' = mallocd ?w \<and> exclLocks w' = exclLocks ?w \<and> condVars w' = condVars ?w \<and>
            atomicPtrs w' = atomicPtrs ?w \<and> nextAddr ?w \<le> nextAddr w' \<and> wf_world w' \<and>
            (\<forall>a < nextAddr ?w. barrierMem w' a = barrierMem ?w a)"
          by (elim exE)
        then have
          w': "MXUser_CreateBarrier (arg_ra args) (arg_name args) (arg_rank args) (arg_count args) ?w =
                 Inr (None, w')"
            "mallocd w' = mallocd ?w" "exclLocks w' = exclLocks ?w" "condVars w' = condVars ?w"
            "atomicPtrs w' = atomicPtrs ?w" "nextAddr ?w \<le> nextAddr w'" "wf_world w'"
            "\<forall>a < nextAddr ?w. barrierMem w' a = barrierMem ?w a"
          by blast+
        have st: "race_step args i s = \<lparr>world_of = w', racers = ?rs[i := At_CAS None]\<rparr>"
          using i At_Create w'(1) by (simp add: race_step_def racer_step_def)
        have "inv_parts args w0 w' ?cs"
          using ip w'(2-8) by (rule inv_parts_fail)
        moreover have "map cand (?rs[i := At_CAS None]) = ?cs"
          using i At_Create by (intro map_cand_same) auto
        moreover have "\<forall>t \<in> set (?rs[i := At_CAS None]). tfact (atomicPtrs w' (arg_var args)) t"
          using tf w'(5) by (intro tfacts_update) auto
        ultimately show ?thesis unfolding st race_inv_def by simp
      qed
    qed
  next
    case (At_CAS nb)
    then have ci: "?cs ! i = nb" using i by simp
    show ?thesis
    proof (cases ?cell)
      case (Some p)
      then have "race_step args i s = \<lparr>world_of = ?w, racers = ?rs[i := At_Destroy (Some p) nb]\<rparr>"
        using i At_CAS by (simp add: race_step_def racer_step_def Atomic_ReadIfEqualWritePtr_def)
      moreover have "race_inv args w0 \<dots>"
        using inv i At_CAS Some by (intro race_inv_same) auto
      ultimately show ?thesis by simp
    next
      case None
      let ?w' = "?w\<lparr>atomicPtrs := (atomicPtrs ?w)(arg_var args := nb)\<rparr>"
      from None have st: "race_step args i s = \<lparr>world_of = ?w', racers = ?rs[i := At_Reread]\<rparr>"
        using i At_CAS by (simp add: race_step_def racer_step_def Atomic_ReadIfEqualWritePtr_def)
      have "inv_parts args w0 ?w' (?cs[i := None])"
        using ip ics None by (rule inv_parts_win) (simp_all add: ci)
      moreover have "\<forall>t \<in> set (?rs[i := At_Reread]). tfact (atomicPtrs ?w' (arg_var args)) t"
      proof (rule tfacts_update)
        from tf None have "\<forall>t \<in> set ?rs. tfact None t" by simp
        then have "\<forall>t \<in> set ?rs. tfact nb t" using tfact_None by blast
        then show "\<forall>t \<in> set ?rs. tfact (atomicPtrs ?w' (arg_var args)) t" by simp
      qed simp
      ultimately show ?thesis unfolding st race_inv_def by (simp add: map_update)
    qed
  next
    case (At_Destroy b nb)
    from tfi At_Destroy have b2: "b = ?cell" and b1: "?cell \<noteq> None" by simp_all
    have b3: "tfact ?cell (Done b)" unfolding b2 by (rule tfact_Done_cell)
    note b = b1 b3
    from At_Destroy have ci: "?cs ! i = nb" using i by simp
    show ?thesis
    proof (cases nb)
      case None
      have "racer_step args (At_Destroy b None) ?w = (Done b, ?w)"
        by (simp add: racer_step_def MXUser_DestroyBarrier_def)
      with None have "race_step args i s = \<lparr>world_of = ?w, racers = ?rs[i := Done b]\<rparr>"
        using i At_Destroy by (simp add: race_step_def)
      moreover have "cand (Done b) = cand (?rs ! i)"
        using At_Destroy None by simp
      then have "race_inv args w0 \<lparr>world_of = ?w, racers = ?rs[i := Done b]\<rparr>"
        using inv i b(2) by (intro race_inv_same)
      ultimately show ?thesis by simp
    next
      case (Some c)
      with ci ics have "c \<in> in_flight ?cs" by (auto simp: in_flight_nth)
      with ip have "good args w0 ?w c" unfolding inv_parts_def by blast
      then have "barrierMem ?w c = Some (new_barrier c (arg_rank args) (arg_count args))"
        unfolding good_def by simp
      from destroy_candidate[OF this] obtain w' b' where
        w'all: "MXUser_DestroyBarrier (Some c) ?w = Inr w' \<and>
          nextAddr w' = nextAddr ?w \<and> mallocd w' = mallocd ?w - {c + 1} - {c} \<and>
          barrierMem w' = (barrierMem ?w)(c \<mapsto> b') \<and> signature (header b') = 0 \<and>
          strMem w' = strMem ?w \<and> exclLocks w' = exclLocks ?w - {c + 2} \<and>
          condVars w' = (\<lambda>cv. if cv = c + 3 \<or> cv = c + 4 then None else condVars ?w cv) \<and>
          atomicPtrs w' = atomicPtrs ?w"
        by (elim exE)
      then have w': "MXUser_DestroyBarrier (Some c) ?w = Inr w'"
          "nextAddr w' = nextAddr ?w" "mallocd w' = mallocd ?w - {c + 1} - {c}"
          "barrierMem w' = (barrierMem ?w)(c \<mapsto> b')"
          "strMem w' = strMem ?w" "exclLocks w' = exclLocks ?w - {c + 2}"
          "condVars w' = (\<lambda>cv. if cv = c + 3 \<or> cv = c + 4 then None else condVars ?w cv)"
          "atomicPtrs w' = atomicPtrs ?w"
        by simp_all
      have "racer_step args (At_Destroy b (Some c)) ?w = (Done b, w')"
        using w'(1) by (simp add: racer_step_def)
      with Some have st: "race_step args i s = \<lparr>world_of = w', racers = ?rs[i := Done b]\<rparr>"
        using i At_Destroy by (simp add: race_step_def)
      have ci': "?cs ! i = Some c" using ci Some by simp
      have "inv_parts args w0 w' (?cs[i := None])"
        using ip wf0 ics ci' w'(2-8) by (rule inv_parts_destroy)
      moreover have "\<forall>t \<in> set (?rs[i := Done b]). tfact (atomicPtrs w' (arg_var args)) t"
      proof (rule tfacts_update)
        show "\<forall>t \<in> set ?rs. tfact (atomicPtrs w' (arg_var args)) t" using tf w'(8) by simp
        show "tfact (atomicPtrs w' (arg_var args)) (Done b)" using b(2) w'(8) by simp
      qed
      ultimately show ?thesis unfolding st race_inv_def by (simp add: map_update)
    qed
  next
    case At_Reread
    then have "race_step args i s = \<lparr>world_of = ?w, racers = ?rs[i := Done ?cell]\<rparr>"
      using i by (simp add: race_step_def racer_step_def Atomic_ReadPtr_def)
    moreover have "race_inv args w0 \<dots>"
      using inv i At_Reread by (intro race_inv_same) (auto simp: tfact_Done_cell)
    ultimately show ?thesis by simp
  next
    case (Done r)
    then have "race_step args i s = s"
      using i by (simp add: race_step_def racer_step_def list_update_same_conv)
    with inv show ?thesis by simp
  next
    case (Aborted f)
    then have "race_step args i s = s"
      using i by (simp add: race_step_def racer_step_def list_update_same_conv)
    with inv show ?thesis by simp
  qed
qed

lemma race_run_inv:
  "race_inv args w0 s \<Longrightarrow> wf_world w0 \<Longrightarrow> race_inv args w0 (race_run args sched s)"
  by (induction sched arbitrary: s) (simp_all add: race_step_inv)

lemma race_inv_init:
  assumes "wf_world w0" and "atomicPtrs w0 (arg_var args) = None"
  shows "race_inv args w0 \<lparr>world_of = w0, racers = replicate n At_Read\<rparr>"
proof -
  have "map cand (replicate n At_Read) = replicate n None" by simp
  moreover have "in_flight (replicate n None) = {}" by (auto simp: in_flight_def)
  moreover have "pairwise_apart (replicate n None)" by (simp add: pairwise_apart_def)
  ultimately have "inv_parts args w0 w0 (map cand (replicate n At_Read))"
    using assms unfolding inv_parts_def accounted_def by simp
  then show ?thesis unfolding race_inv_def by simp
qed

lemma destroy_atomicPtrs:
  "MXUser_DestroyBarrier p w = Inr w' \<Longrightarrow> atomicPtrs w' = atomicPtrs w"
  "MXUser_DestroyBarrier p w = Inl (f, w') \<Longrightarrow> w' = w"
  by (auto simp: MXUser_DestroyBarrier_def Let_def free_def barrier_write_def
      MXUser_DestroyCondVar_def MXUser_DestroyExclLock_def split: option.splits if_splits)

lemma create_aborts: "MXUser_CreateBarrier ra nm rk cnt w = Inl (f, w') \<Longrightarrow> w' = w"
  by (cases nm; cases "planned 0 w"; cases "planned 1 w"; cases "planned 2 w")
     (auto simp: create_defs planned_def eval_nat_numeral split: if_splits)

lemma racer_step_cell:
  assumes "atomicPtrs w (arg_var args) = Some p" and "racer_step args t w = (t', w')"
  shows "atomicPtrs w' (arg_var args) = Some p"
proof (cases t)
  case At_Create
  show ?thesis
  proof (cases "MXUser_CreateBarrier (arg_ra args) (arg_name args) (arg_rank args) (arg_count args) w")
    case (Inl fw)
    then obtain f w1 where fw: "fw = (f, w1)" by (cases fw)
    with Inl create_aborts[of _ _ _ _ w f w1] have "w1 = w" by simp
    with Inl fw At_Create assms show ?thesis by (simp add: racer_step_def)
  next
    case (Inr rw)
    then obtain r w1 where rw: "rw = (r, w1)" by (cases rw)
    with Inr create_atomicPtrs[of _ _ _ _ w r w1] have "atomicPtrs w1 = atomicPtrs w" by simp
    with Inr rw At_Create assms show ?thesis by (simp add: racer_step_def)
  qed
next
  case (At_Destroy b nb)
  show ?thesis
  proof (cases "MXUser_DestroyBarrier nb w")
    case (Inl fw)
    then obtain f w1 where fw: "fw = (f, w1)" by (cases fw)
    with Inl destroy_atomicPtrs(2)[of nb w f w1] have "w1 = w" by simp
    with Inl fw At_Destroy assms show ?thesis by (simp add: racer_step_def)
  next
    case (Inr w1)
    with destroy_atomicPtrs(1)[of nb w w1] have "atomicPtrs w1 = atomicPtrs w" by simp
    with Inr At_Destroy assms show ?thesis by (simp add: racer_step_def)
  qed
qed (use assms in \<open>auto simp: racer_step_def Atomic_ReadPtr_def Atomic_ReadIfEqualWritePtr_def Let_def split: if_splits\<close>)

lemma race_step_cell:
  assumes "atomicPtrs (world_of s) (arg_var args) = Some p"
  shows "atomicPtrs (world_of (race_step args i s)) (arg_var args) = Some p"
proof (cases "i < length (racers s)")
  case True
  obtain t' w' where st: "racer_step args (racers s ! i) (world_of s) = (t', w')"
    by (cases "racer_step args (racers s ! i) (world_of s)")
  from racer_step_cell[OF assms st] True st show ?thesis by (simp add: race_step_def)
next
  case False
  with assms show ?thesis by (simp add: race_step_def)
qed

lemma race_run_cell:
  "atomicPtrs (world_of s) (arg_var args) = Some p \<Longrightarrow>
   atomicPtrs (world_of (race_run args sched s)) (arg_var args) = Some p"
  by (induction sched arbitrary: s) (simp_all add: race_step_cell)

lemma singleton_as_steps:
  "racer_run args 4 (At_Read, w) =
     (case MXUser_CreateSingletonBarrier (arg_ra args) (Some (arg_var args)) (arg_name args)
             (arg_rank args) (arg_count args) w of
        Inl (f, w') \<Rightarrow> (Aborted f, w')
      | Inr (barrier, w') \<Rightarrow> (Done barrier, w'))"
  by (auto simp: eval_nat_numeral racer_step_def MXUser_CreateSingletonBarrier_def Let_def
      Atomic_ReadPtr_def Atomic_ReadIfEqualWritePtr_def split: sum.splits prod.splits option.splits)

lemma race_outcome:
  assumes inv: "race_inv args w0 s" and wf0: "wf_world w0"
  shows "(\<forall>p. Done (Some p) \<in> set (racers s) \<longrightarrow> atomicPtrs (world_of s) (arg_var args) = Some p)"
    and "(\<forall>p. atomicPtrs (world_of s) (arg_var args) = Some p \<longrightarrow>
            p \<in> mallocd (world_of s) \<and>
            barrierMem (world_of s) p = Some (new_barrier p (arg_rank args) (arg_count args)))"
    and "(\<forall>t \<in> set (racers s). is_done t) \<longrightarrow>
            accounted w0 (world_of s) (set_option (atomicPtrs (world_of s) (arg_var args)))"
proof -
  let ?w = "world_of s" and ?cs = "map cand (racers s)"
  let ?cell = "atomicPtrs ?w (arg_var args)"
  from inv have ip: "inv_parts args w0 ?w ?cs" and tf: "\<forall>t \<in> set (racers s). tfact ?cell t"
    unfolding race_inv_def by auto
  show "\<forall>p. Done (Some p) \<in> set (racers s) \<longrightarrow> ?cell = Some p"
    using tf by fastforce
  from ip have gd: "\<forall>c \<in> set_option ?cell \<union> in_flight ?cs. good args w0 ?w c"
    and ac: "accounted w0 ?w (set_option ?cell \<union> in_flight ?cs)"
    unfolding inv_parts_def by auto
  show "\<forall>p. ?cell = Some p \<longrightarrow>
          p \<in> mallocd ?w \<and> barrierMem ?w p = Some (new_barrier p (arg_rank args) (arg_count args))"
  proof (intro allI impI)
    fix p assume p: "?cell = Some p"
    with gd have "good args w0 ?w p" by simp
    moreover from ac p have "p \<in> mallocd ?w" unfolding accounted_def by simp
    ultimately show "p \<in> mallocd ?w \<and>
        barrierMem ?w p = Some (new_barrier p (arg_rank args) (arg_count args))"
      unfolding good_def by simp
  qed
  show "(\<forall>t \<in> set (racers s). is_done t) \<longrightarrow> accounted w0 ?w (set_option ?cell)"
  proof
    assume alld: "\<forall>t \<in> set (racers s). is_done t"
    have "in_flight ?cs = {}"
    proof (rule ccontr)
      assume "in_flight ?cs \<noteq> {}"
      then obtain c t where "t \<in> set (racers s)" "cand t = Some c"
        by (fastforce simp: in_flight_def)
      with alld show False by (cases t) auto
    qed
    with ac show "accounted w0 ?w (set_option ?cell)" by simp
  qed
qed

text \<open>
  C8. In a well-formed process state: a call that finds a barrier in the cell returns it
  and changes nothing; a call on a null cell that runs undisturbed installs the candidate
  that \<^verbatim>\<open>MXUser_CreateBarrier\<close> gave it and returns it; the function is the four-step
  run of a thread on its own. A thread whose compare-and-swap finds a barrier \<open>p\<close> in the
  cell goes on to destroy its candidate (freeing the barrier and its name, destroying its
  lock and condition variables) and returns \<open>p\<close>. And when any number of threads race on
  a null cell, under every schedule: every non-null value returned is the barrier in the
  cell; once a barrier is in the cell it stays there, live and as created; and when all
  threads have returned, what is live is what was live before plus the installed barrier
  with its name, lock and condition variables, so every other candidate has been
  released.
\<close>

theorem singleton_get_or_create:
  assumes wf: "wf_world w"
  shows "(\<forall>p. atomicPtrs w (arg_var args) = Some p \<longrightarrow>
            MXUser_CreateSingletonBarrier (arg_ra args) (Some (arg_var args)) (arg_name args)
              (arg_rank args) (arg_count args) w = Inr (Some p, w)) \<and>
     (\<forall>r w1. atomicPtrs w (arg_var args) = None \<and>
            MXUser_CreateBarrier (arg_ra args) (arg_name args) (arg_rank args) (arg_count args) w =
              Inr (r, w1) \<longrightarrow>
            MXUser_CreateSingletonBarrier (arg_ra args) (Some (arg_var args)) (arg_name args)
              (arg_rank args) (arg_count args) w =
              Inr (r, w1\<lparr>atomicPtrs := (atomicPtrs w1)(arg_var args := r)\<rparr>)) \<and>
     racer_run args 4 (At_Read, w) =
       (case MXUser_CreateSingletonBarrier (arg_ra args) (Some (arg_var args)) (arg_name args)
               (arg_rank args) (arg_count args) w of
          Inl (f, w') \<Rightarrow> (Aborted f, w')
        | Inr (barrier, w') \<Rightarrow> (Done barrier, w')) \<and>
     (\<forall>p c. atomicPtrs w (arg_var args) = Some p \<and>
            barrierMem w c = Some (new_barrier c (arg_rank args) (arg_count args)) \<longrightarrow>
            racer_step args (At_CAS (Some c)) w = (At_Destroy (Some p) (Some c), w) \<and>
            (\<exists>w'. racer_step args (At_Destroy (Some p) (Some c)) w = (Done (Some p), w') \<and>
               mallocd w' = mallocd w - {c + 1} - {c} \<and> exclLocks w' = exclLocks w - {c + 2} \<and>
               condVars w' = (\<lambda>cv. if cv = c + 3 \<or> cv = c + 4 then None else condVars w cv) \<and>
               atomicPtrs w' = atomicPtrs w)) \<and>
     (atomicPtrs w (arg_var args) = None \<longrightarrow>
        (let s = race_run args sched \<lparr>world_of = w, racers = replicate n At_Read\<rparr>;
             cell = atomicPtrs (world_of s) (arg_var args)
         in (\<forall>p. Done (Some p) \<in> set (racers s) \<longrightarrow> cell = Some p) \<and>
            (\<forall>p. cell = Some p \<longrightarrow>
               p \<in> mallocd (world_of s) \<and>
               barrierMem (world_of s) p = Some (new_barrier p (arg_rank args) (arg_count args)) \<and>
               (\<forall>more. atomicPtrs (world_of (race_run args more s)) (arg_var args) = Some p)) \<and>
            ((\<forall>t \<in> set (racers s). is_done t) \<longrightarrow>
               mallocd (world_of s) = mallocd w \<union> set_option cell \<union> (\<lambda>c. c + 1) ` set_option cell \<and>
               exclLocks (world_of s) = exclLocks w \<union> (\<lambda>c. c + 2) ` set_option cell \<and>
               dom (condVars (world_of s)) =
                 dom (condVars w) \<union> (\<lambda>c. c + 3) ` set_option cell \<union> (\<lambda>c. c + 4) ` set_option cell)))"
proof (intro conjI)
  show "\<forall>p. atomicPtrs w (arg_var args) = Some p \<longrightarrow>
            MXUser_CreateSingletonBarrier (arg_ra args) (Some (arg_var args)) (arg_name args)
              (arg_rank args) (arg_count args) w = Inr (Some p, w)"
    by (simp add: singleton_fast)
  show "\<forall>r w1. atomicPtrs w (arg_var args) = None \<and>
            MXUser_CreateBarrier (arg_ra args) (arg_name args) (arg_rank args) (arg_count args) w =
              Inr (r, w1) \<longrightarrow>
            MXUser_CreateSingletonBarrier (arg_ra args) (Some (arg_var args)) (arg_name args)
              (arg_rank args) (arg_count args) w =
              Inr (r, w1\<lparr>atomicPtrs := (atomicPtrs w1)(arg_var args := r)\<rparr>)"
    using singleton_installs by blast
  show "racer_run args 4 (At_Read, w) =
       (case MXUser_CreateSingletonBarrier (arg_ra args) (Some (arg_var args)) (arg_name args)
               (arg_rank args) (arg_count args) w of
          Inl (f, w') \<Rightarrow> (Aborted f, w')
        | Inr (barrier, w') \<Rightarrow> (Done barrier, w'))"
    by (rule singleton_as_steps)
  show "\<forall>p c. atomicPtrs w (arg_var args) = Some p \<and>
            barrierMem w c = Some (new_barrier c (arg_rank args) (arg_count args)) \<longrightarrow>
            racer_step args (At_CAS (Some c)) w = (At_Destroy (Some p) (Some c), w) \<and>
            (\<exists>w'. racer_step args (At_Destroy (Some p) (Some c)) w = (Done (Some p), w') \<and>
               mallocd w' = mallocd w - {c + 1} - {c} \<and> exclLocks w' = exclLocks w - {c + 2} \<and>
               condVars w' = (\<lambda>cv. if cv = c + 3 \<or> cv = c + 4 then None else condVars w cv) \<and>
               atomicPtrs w' = atomicPtrs w)"
  proof (intro allI impI, elim conjE)
    fix p c
    assume cell: "atomicPtrs w (arg_var args) = Some p"
      and mem: "barrierMem w c = Some (new_barrier c (arg_rank args) (arg_count args))"
    have cas: "racer_step args (At_CAS (Some c)) w = (At_Destroy (Some p) (Some c), w)"
      using cell by (simp add: racer_step_def Atomic_ReadIfEqualWritePtr_def)
    from destroy_candidate[OF mem] obtain w' b' where
      "MXUser_DestroyBarrier (Some c) w = Inr w' \<and>
       nextAddr w' = nextAddr w \<and> mallocd w' = mallocd w - {c + 1} - {c} \<and>
       barrierMem w' = (barrierMem w)(c \<mapsto> b') \<and> signature (header b') = 0 \<and>
       strMem w' = strMem w \<and> exclLocks w' = exclLocks w - {c + 2} \<and>
       condVars w' = (\<lambda>cv. if cv = c + 3 \<or> cv = c + 4 then None else condVars w cv) \<and>
       atomicPtrs w' = atomicPtrs w"
      by (elim exE)
    then have "racer_step args (At_Destroy (Some p) (Some c)) w = (Done (Some p), w') \<and>
               mallocd w' = mallocd w - {c + 1} - {c} \<and> exclLocks w' = exclLocks w - {c + 2} \<and>
               condVars w' = (\<lambda>cv. if cv = c + 3 \<or> cv = c + 4 then None else condVars w cv) \<and>
               atomicPtrs w' = atomicPtrs w"
      by (simp add: racer_step_def)
    then have "\<exists>w'. racer_step args (At_Destroy (Some p) (Some c)) w = (Done (Some p), w') \<and>
               mallocd w' = mallocd w - {c + 1} - {c} \<and> exclLocks w' = exclLocks w - {c + 2} \<and>
               condVars w' = (\<lambda>cv. if cv = c + 3 \<or> cv = c + 4 then None else condVars w cv) \<and>
               atomicPtrs w' = atomicPtrs w"
      by (rule exI)
    with cas show "racer_step args (At_CAS (Some c)) w = (At_Destroy (Some p) (Some c), w) \<and>
            (\<exists>w'. racer_step args (At_Destroy (Some p) (Some c)) w = (Done (Some p), w') \<and>
               mallocd w' = mallocd w - {c + 1} - {c} \<and> exclLocks w' = exclLocks w - {c + 2} \<and>
               condVars w' = (\<lambda>cv. if cv = c + 3 \<or> cv = c + 4 then None else condVars w cv) \<and>
               atomicPtrs w' = atomicPtrs w)"
      by (rule conjI)
  qed
  show "atomicPtrs w (arg_var args) = None \<longrightarrow>
        (let s = race_run args sched \<lparr>world_of = w, racers = replicate n At_Read\<rparr>;
             cell = atomicPtrs (world_of s) (arg_var args)
         in (\<forall>p. Done (Some p) \<in> set (racers s) \<longrightarrow> cell = Some p) \<and>
            (\<forall>p. cell = Some p \<longrightarrow>
               p \<in> mallocd (world_of s) \<and>
               barrierMem (world_of s) p = Some (new_barrier p (arg_rank args) (arg_count args)) \<and>
               (\<forall>more. atomicPtrs (world_of (race_run args more s)) (arg_var args) = Some p)) \<and>
            ((\<forall>t \<in> set (racers s). is_done t) \<longrightarrow>
               mallocd (world_of s) = mallocd w \<union> set_option cell \<union> (\<lambda>c. c + 1) ` set_option cell \<and>
               exclLocks (world_of s) = exclLocks w \<union> (\<lambda>c. c + 2) ` set_option cell \<and>
               dom (condVars (world_of s)) =
                 dom (condVars w) \<union> (\<lambda>c. c + 3) ` set_option cell \<union> (\<lambda>c. c + 4) ` set_option cell))"
  proof
    assume cell0: "atomicPtrs w (arg_var args) = None"
    let ?s = "race_run args sched \<lparr>world_of = w, racers = replicate n At_Read\<rparr>"
    have inv: "race_inv args w ?s"
      using race_inv_init[OF wf cell0] wf by (rule race_run_inv)
    note out = race_outcome[OF inv wf]
    show "let s = ?s; cell = atomicPtrs (world_of s) (arg_var args)
         in (\<forall>p. Done (Some p) \<in> set (racers s) \<longrightarrow> cell = Some p) \<and>
            (\<forall>p. cell = Some p \<longrightarrow>
               p \<in> mallocd (world_of s) \<and>
               barrierMem (world_of s) p = Some (new_barrier p (arg_rank args) (arg_count args)) \<and>
               (\<forall>more. atomicPtrs (world_of (race_run args more s)) (arg_var args) = Some p)) \<and>
            ((\<forall>t \<in> set (racers s). is_done t) \<longrightarrow>
               mallocd (world_of s) = mallocd w \<union> set_option cell \<union> (\<lambda>c. c + 1) ` set_option cell \<and>
               exclLocks (world_of s) = exclLocks w \<union> (\<lambda>c. c + 2) ` set_option cell \<and>
               dom (condVars (world_of s)) =
                 dom (condVars w) \<union> (\<lambda>c. c + 3) ` set_option cell \<union> (\<lambda>c. c + 4) ` set_option cell)"
      unfolding Let_def
    proof (intro conjI)
      show "\<forall>p. Done (Some p) \<in> set (racers ?s) \<longrightarrow> atomicPtrs (world_of ?s) (arg_var args) = Some p"
        by (rule out(1))
      show "\<forall>p. atomicPtrs (world_of ?s) (arg_var args) = Some p \<longrightarrow>
               p \<in> mallocd (world_of ?s) \<and>
               barrierMem (world_of ?s) p = Some (new_barrier p (arg_rank args) (arg_count args)) \<and>
               (\<forall>more. atomicPtrs (world_of (race_run args more ?s)) (arg_var args) = Some p)"
        using out(2) race_run_cell[of ?s args] by blast
      show "(\<forall>t \<in> set (racers ?s). is_done t) \<longrightarrow>
               mallocd (world_of ?s) = mallocd w \<union> set_option (atomicPtrs (world_of ?s) (arg_var args)) \<union>
                 (\<lambda>c. c + 1) ` set_option (atomicPtrs (world_of ?s) (arg_var args)) \<and>
               exclLocks (world_of ?s) = exclLocks w \<union> (\<lambda>c. c + 2) ` set_option (atomicPtrs (world_of ?s) (arg_var args)) \<and>
               dom (condVars (world_of ?s)) =
                 dom (condVars w) \<union> (\<lambda>c. c + 3) ` set_option (atomicPtrs (world_of ?s) (arg_var args)) \<union>
                 (\<lambda>c. c + 4) ` set_option (atomicPtrs (world_of ?s) (arg_var args))"
        using out(3) unfolding accounted_def by blast
    qed
  qed
qed

lemma example_race:
  "race_run example_args [0, 1, 0, 1, 0, 1, 0, 1]
     \<lparr>world_of = empty_world 0 [], racers = replicate 2 At_Read\<rparr> =
   \<lparr>world_of =
      \<lparr>nextAddr = 10, allocPlan = [], mallocd = {0, 1},
       barrierMem = [0 \<mapsto> new_barrier 0 0 2,
                     5 \<mapsto> (new_barrier 5 0 2)\<lparr>header := \<lparr>signature = 0, name = None, rank = 0,
                                                             dumpFunc = Some MXUserDumpBarrier\<rparr>\<rparr>],
       strMem = [1 \<mapsto> ''Barrier-0x1'', 6 \<mapsto> ''Barrier-0x1''],
       exclLocks = {2}, condVars = [3 \<mapsto> Some 2, 4 \<mapsto> Some 2],
       atomicPtrs = (\<lambda>_. None)(9 := Some 0)\<rparr>,
    racers = [Done (Some 0), Done (Some 0)]\<rparr>"
  by (simp add: example_args_def empty_world_def race_step_def racer_step_def
      Atomic_ReadPtr_def Atomic_ReadIfEqualWritePtr_def create_defs planned_def
      MXUser_DestroyBarrier_def new_barrier_def zero_barrier_def contexts_def contexts_update_def
      MXUSER_BARRIER_SIGNATURE_def eval_nat_numeral fun_eq_iff insert_commute insert_Diff_if)

theorem singleton_get_or_create_witness:
  "wf_world (empty_world 0 []) \<and> atomicPtrs (empty_world 0 []) (arg_var example_args) = None \<and>
   racers (race_run example_args [0, 1, 0, 1, 0, 1, 0, 1]
             \<lparr>world_of = empty_world 0 [], racers = replicate 2 At_Read\<rparr>) =
     [Done (Some 0), Done (Some 0)] \<and>
   atomicPtrs (world_of (race_run example_args [0, 1, 0, 1, 0, 1, 0, 1]
             \<lparr>world_of = empty_world 0 [], racers = replicate 2 At_Read\<rparr>)) 9 = Some 0 \<and>
   mallocd (world_of (race_run example_args [0, 1, 0, 1, 0, 1, 0, 1]
             \<lparr>world_of = empty_world 0 [], racers = replicate 2 At_Read\<rparr>)) = {0, 1} \<and>
   exclLocks (world_of (race_run example_args [0, 1, 0, 1, 0, 1, 0, 1]
             \<lparr>world_of = empty_world 0 [], racers = replicate 2 At_Read\<rparr>)) = {2} \<and>
   dom (condVars (world_of (race_run example_args [0, 1, 0, 1, 0, 1, 0, 1]
             \<lparr>world_of = empty_world 0 [], racers = replicate 2 At_Read\<rparr>))) = {3, 4}"
  using singleton_get_or_create[of "empty_world 0 []" example_args "[0, 1, 0, 1, 0, 1, 0, 1]" 2]
  unfolding example_race
  by (simp add: wf_world_def empty_world_def example_args_def insert_commute)

subsection \<open>A round of the barrier\<close>

lemma count_list_update:
  "i < length xs \<Longrightarrow>
   count_list (xs[i := y]) a + (if xs ! i = a then 1 else 0) =
   count_list xs a + (if y = a then 1 else 0)"
proof (induction xs arbitrary: i)
  case Nil
  then show ?case by simp
next
  case (Cons x xs)
  show ?case
  proof (cases i)
    case 0
    then show ?thesis by auto
  next
    case (Suc j)
    with Cons.prems have "j < length xs" by simp
    from Cons.IH[OF this] Suc show ?thesis by (auto split: if_splits)
  qed
qed

lemma count_list_two:
  assumes "\<forall>t \<in> set xs. t = a \<or> t = b" and "a \<noteq> b"
  shows "count_list xs a + count_list xs b = length xs"
  using assms by (induction xs) auto

lemma count_list_pos: "0 < count_list xs a \<longleftrightarrow> a \<in> set xs"
  by (induction xs) auto

lemma of_nat_small:
  assumes "j \<le> unat (N :: uint32)"
  shows "(of_nat j :: uint32) = N \<longleftrightarrow> j = unat N" and "(of_nat j :: uint32) = 0 \<longleftrightarrow> j = 0"
proof -
  have u: "unat (of_nat j :: uint32) = j" using assms by (rule le_unat_uoi)
  show "(of_nat j :: uint32) = N \<longleftrightarrow> j = unat N"
    using u by (simp add: word_unat_eq_iff)
  show "(of_nat j :: uint32) = 0 \<longleftrightarrow> j = 0"
    using u by (simp add: word_unat_eq_iff)
qed

lemma arrive_gathering:
  assumes rest: "at_rest b0"
  shows "enter_arrive (Some (contexts_update (curContext b0) (\<lambda>c. c\<lparr>count := of_nat k\<rparr>) b0)) =
     (if (of_nat (Suc k) :: uint32) = configCount b0
      then Inr ((contexts_update (curContext b0) (\<lambda>c. c\<lparr>count := of_nat (Suc k)\<rparr>) b0)\<lparr>emptying := True\<rparr>,
                curContext b0, BroadcastCondVar (condVar (contexts b0 (curContext b0))))
      else Inr (contexts_update (curContext b0) (\<lambda>c. c\<lparr>count := of_nat (Suc k)\<rparr>) b0,
                curContext b0,
                WaitCondVarExclLock (lock b0) (condVar (contexts b0 (curContext b0)))))"
  using rest word_lt2[of "curContext b0"]
  by (auto simp: at_rest_def enter_arrive_def Let_def contexts_def contexts_update_def ac_simps)

lemma leave_draining:
  assumes rest: "at_rest b0"
  shows "enter_leave ((contexts_update (curContext b0) (\<lambda>c. c\<lparr>count := of_nat (Suc m)\<rparr>) b0)\<lparr>emptying := True\<rparr>)
           (curContext b0) =
     (if (of_nat m :: uint32) = 0 then b0\<lparr>curContext := 1 - curContext b0\<rparr>
      else (contexts_update (curContext b0) (\<lambda>c. c\<lparr>count := of_nat m\<rparr>) b0)\<lparr>emptying := True\<rparr>)"
  using rest word_lt2[of "curContext b0"]
  by (auto simp: at_rest_def enter_leave_def Let_def contexts_def contexts_update_def)

lemma wake_simps [simp]:
  "wake cv NotCalled = NotCalled" "wake cv Finished = Finished" "wake cv (Woken p) = Woken p"
  "wake cv (Crashed f) = Crashed f" "wake cv (Waiting p cv) = Woken p"
  by (simp_all add: wake_def)

lemma count_list_wake:
  assumes "\<forall>t \<in> set xs. t = Waiting p cv \<or> t = Finished"
  shows "count_list (map (wake cv) xs) (Woken p) = count_list xs (Waiting p cv)"
    and "\<forall>t \<in> set (map (wake cv) xs). t = Woken p \<or> t = Finished"
  using assms by (induction xs) auto

lemma round_step:
  assumes rest: "at_rest b0" and inv: "round_inv b0 s"
  shows "round_inv b0 (sys_step i s)"
proof (cases "i < length (threads s)")
  case False
  with inv show ?thesis by (simp add: sys_step_def)
next
  case i: True
  let ?cur = "curContext b0"
  let ?cv = "condVar (contexts b0 ?cur)"
  let ?W = "Waiting ?cur ?cv"
  let ?ts = "threads s"
  let ?n = "unat (configCount b0)"
  let ?upd = "\<lambda>k. contexts_update ?cur (\<lambda>c. c\<lparr>count := of_nat k\<rparr>) b0"
  from inv have len: "length ?ts = ?n" unfolding round_inv_def by simp
  from inv consider (G) "gathering b0 s" | (D) "draining b0 s" unfolding round_inv_def by blast
  then show ?thesis
  proof cases
    case G
    let ?k = "count_list ?ts ?W"
    from G have elems: "\<forall>t \<in> set ?ts. t = NotCalled \<or> t = ?W"
      and some: "NotCalled \<in> set ?ts" and bar: "bar s = ?upd ?k"
      unfolding gathering_def by simp_all
    have sum: "count_list ?ts NotCalled + ?k = ?n"
      using count_list_two[OF elems] len by simp
    from some have upos: "0 < count_list ?ts NotCalled" by (simp add: count_list_pos)
    from elems i have "?ts ! i = NotCalled \<or> ?ts ! i = ?W" by simp
    then show ?thesis
    proof
      assume w: "?ts ! i = ?W"
      with i have "sys_step i s = s" by (simp add: sys_step_def)
      with inv show ?thesis by simp
    next
      assume nc: "?ts ! i = NotCalled"
      from sum upos have kle: "Suc ?k \<le> ?n" by simp
      have last: "(of_nat (Suc ?k) :: uint32) = configCount b0 \<longleftrightarrow> Suc ?k = ?n"
        using kle by (rule of_nat_small(1))
      show ?thesis
      proof (cases "Suc ?k = ?n")
        case True
        let ?ts' = "?ts[i := Finished]"
        have st: "sys_step i s =
            \<lparr>bar = enter_leave ((?upd (Suc ?k))\<lparr>emptying := True\<rparr>) ?cur,
             threads = map (wake ?cv) ?ts'\<rparr>"
          using i nc bar True last arrive_gathering[OF rest, of ?k]
          by (simp add: sys_step_def map_update)
        from True sum have u1: "count_list ?ts NotCalled = 1" by simp
        have "count_list ?ts' NotCalled = 0"
          using count_list_update[OF i, of Finished NotCalled] nc u1 by simp
        then have none: "NotCalled \<notin> set ?ts'" by (simp add: count_list_0_iff)
        have elems': "\<forall>t \<in> set ?ts'. t = ?W \<or> t = Finished"
        proof
          fix t assume t: "t \<in> set ?ts'"
          with set_update_subset_insert[of ?ts i Finished] have "t = Finished \<or> t \<in> set ?ts" by auto
          with elems t none show "t = ?W \<or> t = Finished" by auto
        qed
        have k': "count_list ?ts' ?W = ?k"
          using count_list_update[OF i, of Finished ?W] nc by simp
        have woken: "count_list (map (wake ?cv) ?ts') (Woken ?cur) = ?k"
          using count_list_wake(1)[OF elems'] k' by simp
        have zero: "(of_nat ?k :: uint32) = 0 \<longleftrightarrow> ?k = 0"
          using kle by (intro of_nat_small(2)[of _ "configCount b0"]) simp
        have "draining b0 (sys_step i s)"
          unfolding draining_def st
          using count_list_wake(2)[OF elems'] woken zero leave_draining[OF rest, of ?k]
          by simp
        with len st show ?thesis unfolding round_inv_def by simp
      next
        case False
        let ?ts' = "?ts[i := ?W]"
        have st: "sys_step i s = \<lparr>bar = ?upd (Suc ?k), threads = ?ts'\<rparr>"
          using i nc bar False last arrive_gathering[OF rest, of ?k]
          by (simp add: sys_step_def)
        have elems': "\<forall>t \<in> set ?ts'. t = NotCalled \<or> t = ?W"
          using elems set_update_subset_insert[of ?ts i ?W] by auto
        have "count_list ?ts' NotCalled + 1 = count_list ?ts NotCalled"
          using count_list_update[OF i, of ?W NotCalled] nc by simp
        with sum kle False have "0 < count_list ?ts' NotCalled" by simp
        then have some': "NotCalled \<in> set ?ts'" by (simp add: count_list_pos)
        have k': "count_list ?ts' ?W = Suc ?k"
          using count_list_update[OF i, of ?W ?W] nc by simp
        have "gathering b0 (sys_step i s)"
          unfolding gathering_def st using elems' some' k' by simp
        with len st show ?thesis unfolding round_inv_def by simp
      qed
    qed
  next
    case D
    let ?m = "count_list ?ts (Woken ?cur)"
    from D have elems: "\<forall>t \<in> set ?ts. t = Woken ?cur \<or> t = Finished"
      and bar: "bar s = (if ?m = 0 then b0\<lparr>curContext := 1 - ?cur\<rparr>
                         else (?upd ?m)\<lparr>emptying := True\<rparr>)"
      unfolding draining_def by simp_all
    from elems i have "?ts ! i = Woken ?cur \<or> ?ts ! i = Finished" by simp
    then show ?thesis
    proof
      assume "?ts ! i = Finished"
      with i have "sys_step i s = s" by (simp add: sys_step_def)
      with inv show ?thesis by simp
    next
      assume wk: "?ts ! i = Woken ?cur"
      let ?ts' = "?ts[i := Finished]"
      from wk i have "Woken ?cur \<in> set ?ts" by (metis nth_mem)
      then have mpos: "0 < ?m" by (simp add: count_list_pos)
      then obtain m' where m': "?m = Suc m'" by (cases ?m) auto
      have mle: "m' \<le> ?n" using count_le_length[of ?ts "Woken ?cur"] len m' by simp
      have st: "sys_step i s =
          \<lparr>bar = enter_leave ((?upd (Suc m'))\<lparr>emptying := True\<rparr>) ?cur, threads = ?ts'\<rparr>"
        using i wk bar m' by (simp add: sys_step_def)
      have elems': "\<forall>t \<in> set ?ts'. t = Woken ?cur \<or> t = Finished"
        using elems set_update_subset_insert[of ?ts i Finished] by auto
      have cnt': "count_list ?ts' (Woken ?cur) = m'"
        using count_list_update[OF i, of Finished "Woken ?cur"] wk m' by simp
      have zero: "(of_nat m' :: uint32) = 0 \<longleftrightarrow> m' = 0"
        using mle by (rule of_nat_small(2))
      have "draining b0 (sys_step i s)"
        unfolding draining_def st
        using elems' cnt' zero leave_draining[OF rest, of m'] by simp
      with len st show ?thesis unfolding round_inv_def by simp
    qed
  qed
qed

lemma round_init:
  assumes rest: "at_rest b0" and n0: "configCount b0 \<noteq> 0"
  shows "round_inv b0 (sys_init b0)"
proof -
  let ?n = "unat (configCount b0)"
  from n0 have pos: "0 < ?n" by (simp add: unat_gt_0)
  then have "NotCalled \<in> set (replicate ?n NotCalled)" by simp
  moreover have "count_list (replicate ?n NotCalled)
      (Waiting (curContext b0) (condVar (contexts b0 (curContext b0)))) = 0"
    by (simp add: count_list_0_iff)
  moreover have "contexts_update (curContext b0) (\<lambda>c. c\<lparr>count := 0\<rparr>) b0 = b0"
    using rest by (auto simp: at_rest_def contexts_update_def contexts_def)
  ultimately have "gathering b0 (sys_init b0)"
    unfolding gathering_def sys_init_def by simp
  then show ?thesis unfolding round_inv_def sys_init_def by simp
qed

lemma round_run:
  "at_rest b0 \<Longrightarrow> round_inv b0 s \<Longrightarrow> round_inv b0 (sys_run sched s)"
  by (induction sched arbitrary: s) (simp_all add: round_step)

lemma sys_step_length [simp]: "length (threads (sys_step i s)) = length (threads s)"
  by (auto simp: sys_step_def split: thread.splits sum.splits prod.splits cv_call.splits)

lemma sys_run_length [simp]: "length (threads (sys_run sched s)) = length (threads s)"
  by (induction sched arbitrary: s) simp_all

lemma wake_not_NotCalled: "t \<noteq> NotCalled \<Longrightarrow> wake cv t \<noteq> NotCalled"
  by (cases t) (auto simp: wake_def)

lemma sys_step_called:
  assumes "j < length (threads s)" and "j = i \<or> threads s ! j \<noteq> NotCalled"
  shows "threads (sys_step i s) ! j \<noteq> NotCalled"
proof (cases "i < length (threads s)")
  case False
  with assms show ?thesis by (auto simp: sys_step_def)
next
  case True
  show ?thesis
  proof (cases "threads s ! i")
    case NotCalled
    show ?thesis
    proof (cases "enter_arrive (Some (bar s))")
      case (Inl f)
      with NotCalled True assms show ?thesis
        by (auto simp: sys_step_def nth_list_update)
    next
      case (Inr r)
      obtain b ptr call where r: "r = (b, ptr, call)" by (cases r)
      show ?thesis
      proof (cases call)
        case (WaitCondVarExclLock l cv)
        with Inr r NotCalled True assms show ?thesis
          by (auto simp: sys_step_def nth_list_update)
      next
        case (BroadcastCondVar cv)
        with Inr r NotCalled True assms show ?thesis
          by (auto simp: sys_step_def nth_list_update wake_not_NotCalled)
      qed
    qed
  qed (use True assms in \<open>auto simp: sys_step_def nth_list_update\<close>)
qed

lemma sys_run_called:
  "j < length (threads s) \<Longrightarrow> j \<in> set sched \<or> threads s ! j \<noteq> NotCalled \<Longrightarrow>
   threads (sys_run sched s) ! j \<noteq> NotCalled"
proof (induction sched arbitrary: s)
  case Nil
  then show ?case by simp
next
  case (Cons i sched)
  from Cons.prems have "j = i \<or> j \<in> set sched \<or> threads s ! j \<noteq> NotCalled" by auto
  then have "j \<in> set sched \<or> threads (sys_step i s) ! j \<noteq> NotCalled"
    using sys_step_called[OF Cons.prems(1), of i] by blast
  with Cons.IH[of "sys_step i s"] Cons.prems(1) show ?case by simp
qed

lemma sys_step_leaving:
  assumes "\<forall>t \<in> set (threads s). t = Woken p \<or> t = Finished"
  shows "\<forall>t \<in> set (threads (sys_step i s)). t = Woken p \<or> t = Finished"
    and "j < length (threads s) \<Longrightarrow> j = i \<or> threads s ! j = Finished \<Longrightarrow>
         threads (sys_step i s) ! j = Finished"
proof -
  have step: "sys_step i s = s \<or>
      (i < length (threads s) \<and>
       sys_step i s = \<lparr>bar = enter_leave (bar s) p, threads = (threads s)[i := Finished]\<rparr>)"
  proof (cases "i < length (threads s)")
    case True
    with assms have "threads s ! i = Woken p \<or> threads s ! i = Finished" by simp
    with True show ?thesis by (auto simp: sys_step_def)
  next
    case False
    then show ?thesis by (simp add: sys_step_def)
  qed
  show "\<forall>t \<in> set (threads (sys_step i s)). t = Woken p \<or> t = Finished"
    using step assms set_update_subset_insert[of "threads s" i Finished] by auto
  show "threads (sys_step i s) ! j = Finished"
    if "j < length (threads s)" "j = i \<or> threads s ! j = Finished"
  proof (cases "i < length (threads s)")
    case True
    with assms have "threads s ! i = Woken p \<or> threads s ! i = Finished" by simp
    with True that show ?thesis by (auto simp: sys_step_def nth_list_update)
  next
    case False
    with that show ?thesis by (auto simp: sys_step_def)
  qed
qed

lemma sys_run_leaving:
  "\<forall>t \<in> set (threads s). t = Woken p \<or> t = Finished \<Longrightarrow> j < length (threads s) \<Longrightarrow>
   j \<in> set sched \<or> threads s ! j = Finished \<Longrightarrow> threads (sys_run sched s) ! j = Finished"
proof (induction sched arbitrary: s)
  case Nil
  then show ?case by simp
next
  case (Cons i sched)
  from Cons.prems(3) have "j = i \<or> j \<in> set sched \<or> threads s ! j = Finished" by auto
  then have "j \<in> set sched \<or> threads (sys_step i s) ! j = Finished"
    using sys_step_leaving(2)[OF Cons.prems(1,2), of i] by blast
  with Cons.IH[of "sys_step i s"] sys_step_leaving(1)[OF Cons.prems(1), of i] Cons.prems(2)
  show ?case by simp
qed

lemma round_inv_safe:
  assumes "round_inv b0 s"
  shows "Finished \<in> set (threads s) \<longrightarrow> NotCalled \<notin> set (threads s)"
    and "Crashed f \<notin> set (threads s)"
    and "NotCalled \<notin> set (threads s) \<longrightarrow>
           (\<forall>t \<in> set (threads s). t = Woken (curContext b0) \<or> t = Finished)"
  using assms unfolding round_inv_def gathering_def draining_def by auto

lemma sys_run_append: "sys_run (xs @ ys) s = sys_run ys (sys_run xs s)"
  by (induction xs arbitrary: s) simp_all

lemma round_complete:
  assumes rest: "at_rest b0" and n0: "configCount b0 \<noteq> 0"
    and c1: "covers (unat (configCount b0)) s1" and c2: "covers (unat (configCount b0)) s2"
  shows "threads (sys_run (s1 @ s2) (sys_init b0)) = replicate (unat (configCount b0)) Finished"
    and "bar (sys_run (s1 @ s2) (sys_init b0)) = b0\<lparr>curContext := 1 - curContext b0\<rparr>"
proof -
  let ?n = "unat (configCount b0)"
  let ?s1 = "sys_run s1 (sys_init b0)"
  let ?s2 = "sys_run s2 ?s1"
  have run: "sys_run (s1 @ s2) (sys_init b0) = ?s2" by (rule sys_run_append)
  have len0: "length (threads (sys_init b0)) = ?n" by (simp add: sys_init_def)
  then have len1: "length (threads ?s1) = ?n" and len2: "length (threads ?s2) = ?n" by simp_all
  have inv1: "round_inv b0 ?s1" using rest round_init[OF rest n0] by (rule round_run)
  have inv2: "round_inv b0 ?s2" using rest inv1 by (rule round_run)
  have "threads ?s1 ! j \<noteq> NotCalled" if "j < ?n" for j
    using that c1 len0 by (intro sys_run_called) (auto simp: covers_def)
  then have "NotCalled \<notin> set (threads ?s1)"
    using len1 by (auto simp: in_set_conv_nth)
  with round_inv_safe(3)[OF inv1]
  have leaving: "\<forall>t \<in> set (threads ?s1). t = Woken (curContext b0) \<or> t = Finished" by blast
  have fin: "threads ?s2 ! j = Finished" if "j < ?n" for j
    using leaving that c2 len1 by (intro sys_run_leaving) (auto simp: covers_def)
  then have ths: "threads ?s2 = replicate ?n Finished"
    using len2 by (intro nth_equalityI) simp_all
  with run show "threads (sys_run (s1 @ s2) (sys_init b0)) = replicate ?n Finished" by simp
  from ths have "count_list (threads ?s2) (Woken (curContext b0)) = 0"
    by (simp add: count_list_0_iff)
  moreover from n0 have "0 < ?n" by (simp add: unat_gt_0)
  with ths have "NotCalled \<notin> set (threads ?s2)" by simp
  ultimately have "bar ?s2 = b0\<lparr>curContext := 1 - curContext b0\<rparr>"
    using inv2 unfolding round_inv_def gathering_def draining_def by auto
  with run show "bar (sys_run (s1 @ s2) (sys_init b0)) = b0\<lparr>curContext := 1 - curContext b0\<rparr>"
    by simp
qed

lemma replicate_three: "replicate 3 x = [x, x, x]"
  by (simp add: numeral_3_eq_3)

lemma waiting_stays: "threads s ! i = Waiting p cv \<Longrightarrow> sys_step i s = s"
  by (simp add: sys_step_def)

text \<open>
  C4. Take a barrier at rest with party count \<open>N \<ge> 1\<close> and exactly \<open>N\<close> threads, each
  calling \<^verbatim>\<open>MXUser_EnterBarrier\<close> once. Under every schedule: in every state reached,
  if some thread has returned then every thread has called (so nobody returns before
  the \<open>N\<close>-th call); no thread faults; a waiting thread has no step of its own (no
  timeout, no early exit: only a broadcast moves it). And from every state reached,
  once every thread has been scheduled at least once and then at least once again, all
  \<open>N\<close> threads have returned and the barrier is at rest with \<open>curContext\<close> toggled.
\<close>

theorem enter_barrier_round:
  assumes "at_rest b0" and "configCount b0 \<noteq> 0"
  shows "(Finished \<in> set (threads (sys_run sched (sys_init b0))) \<longrightarrow>
            NotCalled \<notin> set (threads (sys_run sched (sys_init b0)))) \<and>
     (\<forall>f. Crashed f \<notin> set (threads (sys_run sched (sys_init b0)))) \<and>
     length (threads (sys_run sched (sys_init b0))) = unat (configCount b0) \<and>
     (\<forall>i p cv. threads (sys_run sched (sys_init b0)) ! i = Waiting p cv \<longrightarrow>
        sys_step i (sys_run sched (sys_init b0)) = sys_run sched (sys_init b0)) \<and>
     (covers (unat (configCount b0)) s1 \<and> covers (unat (configCount b0)) s2 \<longrightarrow>
        threads (sys_run (sched @ s1 @ s2) (sys_init b0)) =
          replicate (unat (configCount b0)) Finished \<and>
        bar (sys_run (sched @ s1 @ s2) (sys_init b0)) = b0\<lparr>curContext := 1 - curContext b0\<rparr>)"
proof -
  let ?s = "sys_run sched (sys_init b0)"
  let ?n = "unat (configCount b0)"
  have inv: "round_inv b0 ?s"
    using assms(1) round_init[OF assms] by (rule round_run)
  have "covers ?n (sched @ s1)" if "covers ?n s1"
    using that by (simp add: covers_def)
  then have fin: "covers ?n s1 \<and> covers ?n s2 \<longrightarrow>
        threads (sys_run (sched @ s1 @ s2) (sys_init b0)) = replicate ?n Finished \<and>
        bar (sys_run (sched @ s1 @ s2) (sys_init b0)) = b0\<lparr>curContext := 1 - curContext b0\<rparr>"
    using round_complete[OF assms, of "sched @ s1" s2] by simp
  have len: "length (threads ?s) = ?n" by (simp add: sys_init_def)
  from round_inv_safe(1,2)[OF inv] len fin waiting_stays show ?thesis by blast
qed

theorem enter_barrier_round_witness:
  "at_rest (example_barrier 3 False 0 0 0) \<and> configCount (example_barrier 3 False 0 0 0) \<noteq> 0 \<and>
   covers 3 [0, 1, 2] \<and> covers 3 [2, 1, 0] \<and>
   threads (sys_run [0, 1] (sys_init (example_barrier 3 False 0 0 0))) =
     [Waiting 0 (Some 3), Waiting 0 (Some 3), NotCalled] \<and>
   threads (sys_run [0, 1, 2] (sys_init (example_barrier 3 False 0 0 0))) =
     [Woken 0, Woken 0, Finished] \<and>
   threads (sys_run ([] @ [0, 1, 2] @ [2, 1, 0]) (sys_init (example_barrier 3 False 0 0 0))) =
     [Finished, Finished, Finished] \<and>
   bar (sys_run ([] @ [0, 1, 2] @ [2, 1, 0]) (sys_init (example_barrier 3 False 0 0 0))) =
     example_barrier 3 False 1 0 0"
proof -
  have c: "covers 3 [0, 1, 2]" "covers 3 [2, 1, 0]"
    by (auto simp: covers_def)
  have r: "at_rest (example_barrier 3 False 0 0 0)" "configCount (example_barrier 3 False 0 0 0) \<noteq> 0"
    "unat (configCount (example_barrier 3 False 0 0 0)) = 3"
    by (simp_all add: at_rest_def example_barrier_def contexts_def)
  have e: "threads (sys_run [0, 1] (sys_init (example_barrier 3 False 0 0 0))) =
     [Waiting 0 (Some 3), Waiting 0 (Some 3), NotCalled]"
    "threads (sys_run [0, 1, 2] (sys_init (example_barrier 3 False 0 0 0))) =
     [Woken 0, Woken 0, Finished]"
    by (simp_all add: sys_init_def sys_step_def example_barrier_def enter_arrive_def enter_leave_def
        Let_def contexts_def contexts_update_def wake_def replicate_three)
  have t: "(example_barrier 3 False 0 0 0)\<lparr>curContext := 1 - curContext (example_barrier 3 False 0 0 0)\<rparr> =
      example_barrier 3 False 1 0 0"
    by (simp add: example_barrier_def)
  have "threads (sys_run ([] @ [0, 1, 2] @ [2, 1, 0]) (sys_init (example_barrier 3 False 0 0 0))) =
      replicate 3 Finished \<and>
    bar (sys_run ([] @ [0, 1, 2] @ [2, 1, 0]) (sys_init (example_barrier 3 False 0 0 0))) =
      example_barrier 3 False 1 0 0"
    using enter_barrier_round[OF r(1,2), of "[]" "[0, 1, 2]" "[2, 1, 0]"] c
    unfolding r(3) t by blast
  with c r(1,2) e show ?thesis by (simp only: replicate_three) blast
qed

end
